theory Spec2Isabelle
  imports Main "HOL-Library.Monad_Syntax" "HOL-Library.Multiset"
begin

section \<open>Values of Go's empty interface\<close>

text \<open>
  Keys and values of the cache have the Go type \<^verbatim>\<open>interface{}\<close>. Such a value is either
  \<^verbatim>\<open>nil\<close> or a concrete value. The concrete values are taken from an arbitrary type with
  equality (a key that cannot be hashed makes the Go map panic and is outside this model).
\<close>

datatype 'a iface = nil | Iface 'a

text \<open>\<^verbatim>\<open>type pair struct { key interface{}; value interface{} }\<close>\<close>

record ('k, 'v) pair =
  key :: "'k iface"
  val :: "'v iface"


section \<open>The doubly linked list of \<^verbatim>\<open>container/list\<close>\<close>

text \<open>
  The cache keeps \<^verbatim>\<open>*list.Element\<close> pointers in its map, so the list is modelled on an
  explicit store. An address is a natural number and a pointer is an \<open>addr option\<close>, with
  \<open>None\<close> for the nil pointer. The store is split by field: \<open>nxt\<close>, \<open>prv\<close>, \<open>owner\<close>
  and \<open>Value\<close> hold the fields \<^verbatim>\<open>next\<close>, \<^verbatim>\<open>prev\<close>, \<^verbatim>\<open>list\<close> and \<^verbatim>\<open>Value\<close> of the
  element at an address. A cache owns one list, so the \<^verbatim>\<open>list\<close> field of an element is
  either nil or that list: \<open>owner l a\<close> says that it is that list. \<^verbatim>\<open>Value\<close> holds the
  \<^verbatim>\<open>*pair\<close> the cache stored, or the nil interface (\<open>None\<close>); every pair has one element
  pointing at it, so the pair is kept with the element. The sentinel \<^verbatim>\<open>root\<close> of the list
  lives at address \<open>0\<close>; its \<^verbatim>\<open>list\<close> and \<^verbatim>\<open>Value\<close> fields are never written. \<open>alloc\<close> is
  the next address handed out by an allocation. \<open>len\<close> is the field \<^verbatim>\<open>len\<close>; it counts
  allocated elements, which the memory bounds far below \<open>2^63\<close>, so its increments are
  written without wrap-around.

  A function that can panic (a nil dereference, a type assertion on the nil interface, an
  index out of range) returns an option, \<open>None\<close> being the panic.
\<close>

type_synonym addr = nat

record ('k, 'v) List =
  nxt :: "addr \<Rightarrow> addr option"
  prv :: "addr \<Rightarrow> addr option"
  owner :: "addr \<Rightarrow> bool"
  Value :: "addr \<Rightarrow> ('k, 'v) pair option"
  len :: int
  alloc :: addr

definition root :: addr where
  "root = 0"

text \<open>\<^verbatim>\<open>p.next = v\<close> and \<^verbatim>\<open>p.prev = v\<close> for a pointer \<open>p\<close> that may be nil.\<close>

definition store_next :: "addr option \<Rightarrow> addr option \<Rightarrow> ('k, 'v) List \<Rightarrow> ('k, 'v) List option" where
  "store_next p v l = (case p of None \<Rightarrow> None | Some a \<Rightarrow> Some (l\<lparr>nxt := (nxt l)(a := v)\<rparr>))"

definition store_prev :: "addr option \<Rightarrow> addr option \<Rightarrow> ('k, 'v) List \<Rightarrow> ('k, 'v) List option" where
  "store_prev p v l = (case p of None \<Rightarrow> None | Some a \<Rightarrow> Some (l\<lparr>prv := (prv l)(a := v)\<rparr>))"

text \<open>\<^verbatim>\<open>func (l *List) Init() *List\<close>\<close>

definition Init :: "('k, 'v) List \<Rightarrow> ('k, 'v) List" where
  "Init l = l\<lparr>nxt := (nxt l)(root := Some root), prv := (prv l)(root := Some root), len := 0\<rparr>"

text \<open>\<^verbatim>\<open>func New() *List { return new(List).Init() }\<close>: a zeroed list header, initialised.\<close>

definition list_New :: "('k, 'v) List" where
  "list_New = Init \<lparr>nxt = (\<lambda>_. None), prv = (\<lambda>_. None), owner = (\<lambda>_. False),
                    Value = (\<lambda>_. None), len = 0, alloc = Suc root\<rparr>"

definition Len :: "('k, 'v) List \<Rightarrow> int" where
  "Len l = len l"

text \<open>\<^verbatim>\<open>func (l *List) Back() *Element\<close>: nil when \<^verbatim>\<open>l.len == 0\<close>, else \<^verbatim>\<open>l.root.prev\<close>.\<close>

definition Back :: "('k, 'v) List \<Rightarrow> addr option" where
  "Back l = (if len l = 0 then None else prv l root)"

text \<open>\<^verbatim>\<open>func (e *Element) Prev() *Element\<close>: \<^verbatim>\<open>e.prev\<close> unless \<^verbatim>\<open>e.list\<close> is nil or
  \<^verbatim>\<open>e.prev\<close> is the root of \<^verbatim>\<open>e.list\<close>.\<close>

definition Prev :: "addr \<Rightarrow> ('k, 'v) List \<Rightarrow> addr option" where
  "Prev e l = (if owner l e \<and> prv l e \<noteq> Some root then prv l e else None)"

text \<open>\<^verbatim>\<open>func (l *List) insert(e, at *Element) *Element\<close>\<close>

definition insert_at :: "addr \<Rightarrow> addr \<Rightarrow> ('k, 'v) List \<Rightarrow> ('k, 'v) List option" where
  "insert_at e at l = do {
     let l1 = l\<lparr>prv := (prv l)(e := Some at)\<rparr>;
     let l2 = l1\<lparr>nxt := (nxt l1)(e := nxt l1 at)\<rparr>;
     l3 \<leftarrow> store_next (prv l2 e) (Some e) l2;
     l4 \<leftarrow> store_prev (nxt l3 e) (Some e) l3;
     Some (l4\<lparr>owner := (owner l4)(e := True), len := len l4 + 1\<rparr>)
   }"

text \<open>\<^verbatim>\<open>func (l *List) insertValue(v any, at *Element) *Element\<close>: allocates
  \<^verbatim>\<open>&Element{Value: v}\<close> and inserts it; the result is the new element.\<close>

definition insertValue :: "('k, 'v) pair \<Rightarrow> addr \<Rightarrow> ('k, 'v) List \<Rightarrow> (addr \<times> ('k, 'v) List) option" where
  "insertValue v at l = do {
     let e = alloc l;
     let l0 = l\<lparr>nxt := (nxt l)(e := None), prv := (prv l)(e := None),
                owner := (owner l)(e := False), Value := (Value l)(e := Some v),
                alloc := Suc (alloc l)\<rparr>;
     l1 \<leftarrow> insert_at e at l0;
     Some (e, l1)
   }"

text \<open>\<^verbatim>\<open>func (l *List) remove(e *Element)\<close>\<close>

definition remove :: "addr \<Rightarrow> ('k, 'v) List \<Rightarrow> ('k, 'v) List option" where
  "remove e l = do {
     l1 \<leftarrow> store_next (prv l e) (nxt l e) l;
     l2 \<leftarrow> store_prev (nxt l1 e) (prv l1 e) l1;
     Some (l2\<lparr>nxt := (nxt l2)(e := None), prv := (prv l2)(e := None),
              owner := (owner l2)(e := False), len := len l2 - 1\<rparr>)
   }"

text \<open>\<^verbatim>\<open>func (l *List) move(e, at *Element)\<close>\<close>

definition move :: "addr \<Rightarrow> addr \<Rightarrow> ('k, 'v) List \<Rightarrow> ('k, 'v) List option" where
  "move e at l =
     (if e = at then Some l
      else do {
        l1 \<leftarrow> store_next (prv l e) (nxt l e) l;
        l2 \<leftarrow> store_prev (nxt l1 e) (prv l1 e) l1;
        let l3 = l2\<lparr>prv := (prv l2)(e := Some at)\<rparr>;
        let l4 = l3\<lparr>nxt := (nxt l3)(e := nxt l3 at)\<rparr>;
        l5 \<leftarrow> store_next (prv l4 e) (Some e) l4;
        store_prev (nxt l5 e) (Some e) l5
      })"

text \<open>\<^verbatim>\<open>func (l *List) Remove(e *Element) any\<close>: the callers drop the result.\<close>

definition Remove :: "addr \<Rightarrow> ('k, 'v) List \<Rightarrow> ('k, 'v) List option" where
  "Remove e l = (if owner l e then remove e l else Some l)"

text \<open>\<^verbatim>\<open>func (l *List) PushFront(v any) *Element\<close>, with its \<^verbatim>\<open>lazyInit\<close>.\<close>

definition PushFront :: "('k, 'v) pair \<Rightarrow> ('k, 'v) List \<Rightarrow> (addr \<times> ('k, 'v) List) option" where
  "PushFront v l = insertValue v root (if nxt l root = None then Init l else l)"

text \<open>\<^verbatim>\<open>func (l *List) MoveToFront(e *Element)\<close>\<close>

definition MoveToFront :: "addr \<Rightarrow> ('k, 'v) List \<Rightarrow> ('k, 'v) List option" where
  "MoveToFront e l = (if \<not> owner l e \<or> nxt l root = Some e then Some l else move e root l)"


section \<open>The cache\<close>

text \<open>
  \<^verbatim>\<open>type LRUCache struct\<close>. The package comes in two copies with the same bodies: one
  has \<^verbatim>\<open>Peek\<close> and \<^verbatim>\<open>Purge\<close>, the other has \<^verbatim>\<open>Drop\<close> (the body of \<^verbatim>\<open>Purge\<close>)
  and the doc comments; the model has the operations of both. The lock is left out: the
  model is of one call at a time. The callback is a caller's function; the model keeps
  whether one is registered (\<open>onItemEvicted\<close>, false for nil) and the calls made to it so
  far, oldest first (\<open>evicted\<close>).
\<close>

record ('k, 'v) LRUCache =
  capacity :: int
  links :: "('k, 'v) List"
  cache :: "'k iface \<Rightarrow> addr option"
  onItemEvicted :: bool
  evicted :: "('k, 'v) pair list"

datatype error = Error string

definition New :: "int \<Rightarrow> bool \<Rightarrow> error + ('k, 'v) LRUCache" where
  "New bufCap cb =
     (if bufCap \<le> 0
      then Inl (Error ''an LRU Cache must be initialized with a whole number greater than zero'')
      else Inr \<lparr>capacity = bufCap, links = list_New, cache = (\<lambda>_. None),
                onItemEvicted = cb, evicted = []\<rparr>)"

text \<open>\<^verbatim>\<open>purgeLRUItem\<close>: unlink the element, then delete the key of its pair from the map.\<close>

definition purgeLRUItem :: "addr \<Rightarrow> ('k, 'v) LRUCache \<Rightarrow> ('k, 'v) LRUCache option" where
  "purgeLRUItem e lc = do {
     l \<leftarrow> Remove e (links lc);
     kv \<leftarrow> Value l e;
     Some (lc\<lparr>links := l, cache := (cache lc)(key kv := None)\<rparr>)
   }"

text \<open>\<^verbatim>\<open>tryEvict\<close>: call the callback, when there is one, on the pair of the element.\<close>

definition tryEvict :: "addr \<Rightarrow> ('k, 'v) LRUCache \<Rightarrow> ('k, 'v) LRUCache option" where
  "tryEvict e lc =
     (if onItemEvicted lc
      then do { kv \<leftarrow> Value (links lc) e; Some (lc\<lparr>evicted := evicted lc @ [kv]\<rparr>) }
      else Some lc)"

text \<open>
  \<^verbatim>\<open>Get\<close>. The test \<^verbatim>\<open>kv.Value.(*pair) == nil\<close> of the source asks for a nil \<^verbatim>\<open>*pair\<close>
  inside a non-nil interface; \<^verbatim>\<open>Put\<close> stores only \<^verbatim>\<open>&pair{key, value}\<close>, so no element
  holds one and the branch is not taken. On the nil interface the type assertion panics.
\<close>

definition Get :: "'k iface \<Rightarrow> ('k, 'v) LRUCache \<Rightarrow> (('v iface \<times> bool) \<times> ('k, 'v) LRUCache) option" where
  "Get k lc =
     (case cache lc k of
        Some kv \<Rightarrow> do {
          l \<leftarrow> MoveToFront kv (links lc);
          p \<leftarrow> Value l kv;
          Some ((val p, True), lc\<lparr>links := l\<rparr>)
        }
      | None \<Rightarrow> Some ((nil, False), lc))"

definition Put :: "'k iface \<Rightarrow> 'v iface \<Rightarrow> ('k, 'v) LRUCache \<Rightarrow> (bool \<times> ('k, 'v) LRUCache) option" where
  "Put k v lc =
     (case cache lc k of
        Some kv \<Rightarrow> do {
          l \<leftarrow> MoveToFront kv (links lc);
          p \<leftarrow> Value l kv;
          Some (False, lc\<lparr>links := l\<lparr>Value := (Value l)(kv := Some (p\<lparr>val := v\<rparr>))\<rparr>\<rparr>)
        }
      | None \<Rightarrow> do {
          (e, l) \<leftarrow> PushFront \<lparr>key = k, val = v\<rparr> (links lc);
          let lc1 = lc\<lparr>links := l, cache := (cache lc)(k := Some e)\<rparr>;
          if Len (links lc1) > capacity lc1
          then (case Back (links lc1) of
                  Some kv \<Rightarrow> do {
                    lc2 \<leftarrow> purgeLRUItem kv lc1;
                    lc3 \<leftarrow> tryEvict kv lc2;
                    Some (True, lc3)
                  }
                | None \<Rightarrow> Some (False, lc1))
          else Some (False, lc1)
        })"

definition Del :: "'k iface \<Rightarrow> ('k, 'v) LRUCache \<Rightarrow> (bool \<times> ('k, 'v) LRUCache) option" where
  "Del k lc =
     (case cache lc k of
        Some kv \<Rightarrow> do { lc1 \<leftarrow> purgeLRUItem kv lc; Some (True, lc1) }
      | None \<Rightarrow> Some (False, lc))"

text \<open>
  \<^verbatim>\<open>Keys\<close> makes a slice of \<^verbatim>\<open>Len()\<close> nil entries and fills it from the back of the list,
  following \<^verbatim>\<open>Prev()\<close>. \<open>Keys_loop l n k\<close> is the loop at element \<open>k\<close> with \<open>n\<close> slots left:
  writing past the slice panics, and the slots not reached stay nil.
\<close>

fun Keys_loop :: "('k, 'v) List \<Rightarrow> nat \<Rightarrow> addr option \<Rightarrow> 'k iface list option" where
  "Keys_loop l n None = Some (replicate n nil)"
| "Keys_loop l 0 (Some k) = None"
| "Keys_loop l (Suc n) (Some k) = do {
     p \<leftarrow> Value l k;
     ks \<leftarrow> Keys_loop l n (Prev k l);
     Some (key p # ks)
   }"

definition Keys :: "('k, 'v) LRUCache \<Rightarrow> ('k iface list \<times> ('k, 'v) LRUCache) option" where
  "Keys lc =
     (if Len (links lc) < 0 then None
      else do {
        ks \<leftarrow> Keys_loop (links lc) (nat (Len (links lc))) (Back (links lc));
        Some (ks, lc)
      })"

definition Peek :: "'k iface \<Rightarrow> ('k, 'v) LRUCache \<Rightarrow> ('v iface \<times> ('k, 'v) LRUCache) option" where
  "Peek k lc =
     (case cache lc k of
        Some kv \<Rightarrow> do { p \<leftarrow> Value (links lc) kv; Some (val p, lc) }
      | None \<Rightarrow> Some (nil, lc))"

definition Has :: "'k iface \<Rightarrow> ('k, 'v) LRUCache \<Rightarrow> bool \<times> ('k, 'v) LRUCache" where
  "Has k lc = (cache lc k \<noteq> None, lc)"

text \<open>
  \<^verbatim>\<open>Drop\<close> (called \<^verbatim>\<open>Purge\<close> in the other copy of the file, with the same body) ranges over
  the map. Go leaves the order of a range over a map open, so the order is an argument:
  \<open>ks\<close> lists the keys as the range reaches them. An entry deleted before the range
  reaches it is not produced, and the value is read when the entry is reached.
\<close>

fun Drop_loop :: "'k iface list \<Rightarrow> ('k, 'v) LRUCache \<Rightarrow> ('k, 'v) LRUCache option" where
  "Drop_loop [] lc = Some lc"
| "Drop_loop (k # ks) lc =
     (case cache lc k of
        None \<Rightarrow> Drop_loop ks lc
      | Some v \<Rightarrow>
          if onItemEvicted lc
          then do {
            lc1 \<leftarrow> purgeLRUItem v lc;
            lc2 \<leftarrow> tryEvict v lc1;
            Drop_loop ks lc2
          }
          else Drop_loop ks lc)"

definition Drop :: "'k iface list \<Rightarrow> ('k, 'v) LRUCache \<Rightarrow> ('k, 'v) LRUCache option" where
  "Drop ks lc = do {
     lc1 \<leftarrow> Drop_loop ks lc;
     Some (lc1\<lparr>links := Init (links lc1)\<rparr>)
   }"

definition Purge :: "'k iface list \<Rightarrow> ('k, 'v) LRUCache \<Rightarrow> ('k, 'v) LRUCache option" where
  "Purge ks lc = Drop ks lc"

definition Size :: "('k, 'v) LRUCache \<Rightarrow> int" where
  "Size lc = Len (links lc)"

definition Capacity :: "('k, 'v) LRUCache \<Rightarrow> int" where
  "Capacity lc = capacity lc"

text \<open>
  \<^verbatim>\<open>AdjustCapacity\<close>. \<^verbatim>\<open>bufCap\<close> is the caller's, so the subtraction
  \<^verbatim>\<open>lc.links.Len() - bufCap\<close> is written with the wrap-around of a 64-bit \<^verbatim>\<open>int\<close>.
\<close>

definition int_wrap :: "int \<Rightarrow> int" where
  "int_wrap x = (x + 2 ^ 63) mod 2 ^ 64 - 2 ^ 63"

fun AdjustCapacity_loop :: "nat \<Rightarrow> ('k, 'v) LRUCache \<Rightarrow> ('k, 'v) LRUCache option" where
  "AdjustCapacity_loop 0 lc = Some lc"
| "AdjustCapacity_loop (Suc n) lc =
     (case Back (links lc) of
        Some kv \<Rightarrow> do {
          lc1 \<leftarrow> purgeLRUItem kv lc;
          lc2 \<leftarrow> tryEvict kv lc1;
          AdjustCapacity_loop n lc2
        }
      | None \<Rightarrow> AdjustCapacity_loop n lc)"

definition AdjustCapacity :: "int \<Rightarrow> ('k, 'v) LRUCache \<Rightarrow> (int \<times> ('k, 'v) LRUCache) option" where
  "AdjustCapacity bufCap lc = do {
     let diff = int_wrap (Len (links lc) - bufCap);
     let diff = (if diff < 0 then 0 else diff);
     lc1 \<leftarrow> AdjustCapacity_loop (nat diff) lc;
     Some (diff, lc1\<lparr>capacity := bufCap\<rparr>)
   }"

definition LeastRecentlyUsed :: "('k, 'v) LRUCache \<Rightarrow> ('k iface \<times> 'v iface) option" where
  "LeastRecentlyUsed lc =
     (case Back (links lc) of
        Some kv \<Rightarrow> do { n \<leftarrow> Value (links lc) kv; Some (key n, val n) }
      | None \<Rightarrow> Some (nil, nil))"

section \<open>The call sequence of \<^verbatim>\<open>TestLeastRecentlyUsed\<close>\<close>

text \<open>
  \<^verbatim>\<open>New(3, incr)\<close> followed by
  \<^verbatim>\<open>Put(1,1); Put(2,2); Get(1); Put(3,3); Get(1); Put(4,4); Get(1); Put(5,5)\<close>:
  the cache after the last call, or \<open>None\<close> when a call fails.
\<close>

definition recency_run :: "(int, int) LRUCache option" where
  "recency_run =
     (case New 3 True of
        Inl _ \<Rightarrow> None
      | Inr lc0 \<Rightarrow> do {
          (_, lc1) \<leftarrow> Put (Iface 1) (Iface 1) lc0;
          (_, lc2) \<leftarrow> Put (Iface 2) (Iface 2) lc1;
          (_, lc3) \<leftarrow> Get (Iface 1) lc2;
          (_, lc4) \<leftarrow> Put (Iface 3) (Iface 3) lc3;
          (_, lc5) \<leftarrow> Get (Iface 1) lc4;
          (_, lc6) \<leftarrow> Put (Iface 4) (Iface 4) lc5;
          (_, lc7) \<leftarrow> Get (Iface 1) lc6;
          (_, lc8) \<leftarrow> Put (Iface 5) (Iface 5) lc7;
          Some lc8
        })"


section \<open>Call sequences\<close>

text \<open>A sequence of \<^verbatim>\<open>Put\<close> calls, stopping at the first call that panics.\<close>

fun Puts :: "('k iface \<times> 'v iface) list \<Rightarrow> ('k, 'v) LRUCache \<Rightarrow> ('k, 'v) LRUCache option" where
  "Puts [] lc = Some lc"
| "Puts ((k, v) # kvs) lc = Put k v lc \<bind> (\<lambda>(_, lc'). Puts kvs lc')"




text \<open>\<^verbatim>\<open>New(2, cb); Put(1,1); Put(2,2)\<close>: a cache at its capacity.\<close>

definition full_cache :: "(int, int) LRUCache option" where
  "full_cache =
     (case New 2 True of
        Inl _ \<Rightarrow> None
      | Inr lc0 \<Rightarrow> Puts [(Iface 1, Iface 1), (Iface 2, Iface 2)] lc0)"

text \<open>\<^verbatim>\<open>New(3, nil); Put(1,1); Drop()\<close>: the range of \<^verbatim>\<open>Drop\<close> meets the one key.\<close>

definition drop_run :: "(int, int) LRUCache option" where
  "drop_run =
     (case New 3 False of
        Inl _ \<Rightarrow> None
      | Inr lc0 \<Rightarrow> do {
          (_, lc1) \<leftarrow> Put (Iface 1) (Iface 1) lc0;
          Drop [Iface 1] lc1
        })"

text \<open>\<^verbatim>\<open>New(2, nil); Put(1,1); Put(2,2); Purge(); Put(3,3)\<close>, the range of \<^verbatim>\<open>Purge\<close>
  meeting key 2 and then key 1.\<close>

definition purge_run :: "(int, int) LRUCache option" where
  "purge_run =
     (case New 2 False of
        Inl _ \<Rightarrow> None
      | Inr lc0 \<Rightarrow> do {
          lc2 \<leftarrow> Puts [(Iface 1, Iface 1), (Iface 2, Iface 2)] lc0;
          lc3 \<leftarrow> Purge [Iface 2, Iface 1] lc2;
          (_, lc4) \<leftarrow> Put (Iface 3) (Iface 3) lc3;
          Some lc4
        })"



text \<open>\<^verbatim>\<open>New(3, cb); Put(1,1)\<close>, and then \<^verbatim>\<open>AdjustCapacity(-1)\<close>.\<close>

definition one_entry :: "(int, int) LRUCache option" where
  "one_entry =
     (case New 3 True of
        Inl _ \<Rightarrow> None
      | Inr lc0 \<Rightarrow> map_option snd (Put (Iface 1) (Iface 1) lc0))"

definition adjust_run :: "(int \<times> (int, int) LRUCache) option" where
  "adjust_run = one_entry \<bind> AdjustCapacity (- 1)"




section \<open>The abstraction: a cache as a list of pairs\<close>

text \<open>
  \<open>chain f g a xs b\<close>: following \<open>f\<close> (the \<^verbatim>\<open>next\<close> pointers) from \<open>a\<close> visits \<open>xs\<close> in
  order and then \<open>b\<close>, and \<open>g\<close> (the \<^verbatim>\<open>prev\<close> pointers) leads back the same way.
\<close>

fun chain :: "(addr \<Rightarrow> addr option) \<Rightarrow> (addr \<Rightarrow> addr option) \<Rightarrow> addr \<Rightarrow> addr list \<Rightarrow> addr \<Rightarrow> bool" where
  "chain f g a [] b \<longleftrightarrow> f a = Some b \<and> g b = Some a"
| "chain f g a (x # xs) b \<longleftrightarrow> f a = Some x \<and> g x = Some a \<and> chain f g x xs b"

text \<open>
  \<open>dll l xs\<close>: the list \<open>l\<close> is a ring from \<open>root\<close> through the distinct elements \<open>xs\<close>
  (front first) back to \<open>root\<close>, its \<open>len\<close> is their number, and each of them is allocated
  and has \<open>l\<close> as its \<^verbatim>\<open>list\<close>.
\<close>

definition dll :: "('k, 'v) List \<Rightarrow> addr list \<Rightarrow> bool" where
  "dll l xs \<longleftrightarrow>
     chain (nxt l) (prv l) root xs root \<and> distinct (root # xs) \<and> len l = int (length xs) \<and>
     (\<forall>a \<in> set xs. owner l a \<and> a < alloc l) \<and> root < alloc l"

text \<open>The elements of a list, front first: \<open>len\<close> steps along \<^verbatim>\<open>next\<close> from the root.\<close>

fun walk :: "(addr \<Rightarrow> addr option) \<Rightarrow> addr \<Rightarrow> nat \<Rightarrow> addr list" where
  "walk f a 0 = []"
| "walk f a (Suc n) = (case f a of None \<Rightarrow> [] | Some b \<Rightarrow> b # walk f b n)"

definition elems :: "('k, 'v) List \<Rightarrow> addr list" where
  "elems l = walk (nxt l) root (nat (len l))"

text \<open>The ordering of the cache: the pairs of its list, most recently used first.\<close>

definition entries :: "('k, 'v) LRUCache \<Rightarrow> ('k, 'v) pair list" where
  "entries lc = List.map_filter (Value (links lc)) (elems (links lc))"

text \<open>
  \<open>rep lc xs\<close>: the list of the cache is the ring of \<open>xs\<close>, every element of it carries a
  pair whose key the map sends to that element, and the map holds nothing else. This is the
  invariant of the data model: the list and the map hold the same keys, and the element
  the map gives for a key carries that key.
\<close>

definition rep :: "('k, 'v) LRUCache \<Rightarrow> addr list \<Rightarrow> bool" where
  "rep lc xs \<longleftrightarrow>
     dll (links lc) xs \<and>
     (\<forall>a \<in> set xs. \<exists>p. Value (links lc) a = Some p \<and> cache lc (key p) = Some a) \<and>
     (\<forall>k a. cache lc k = Some a \<longrightarrow> a \<in> set xs \<and> (\<exists>p. Value (links lc) a = Some p \<and> key p = k))"

definition well_formed :: "('k, 'v) LRUCache \<Rightarrow> bool" where
  "well_formed lc \<longleftrightarrow> rep lc (elems (links lc))"


section \<open>Reachable states\<close>

text \<open>
  The states a cache goes through from \<open>New\<close> under its public operations, \<open>Drop\<close>
  being called only on a cache with a callback, with a range that meets every key of the
  map once. (What \<open>Drop\<close> does without a callback is the subject of C3 and C4.)
\<close>

inductive reachable :: "('k, 'v) LRUCache \<Rightarrow> bool" where
  r_New: "New bufCap cb = Inr lc \<Longrightarrow> reachable lc"
| r_Get: "reachable lc \<Longrightarrow> Get k lc = Some (r, lc') \<Longrightarrow> reachable lc'"
| r_Put: "reachable lc \<Longrightarrow> Put k v lc = Some (b, lc') \<Longrightarrow> reachable lc'"
| r_Del: "reachable lc \<Longrightarrow> Del k lc = Some (b, lc') \<Longrightarrow> reachable lc'"
| r_Keys: "reachable lc \<Longrightarrow> Keys lc = Some (ks, lc') \<Longrightarrow> reachable lc'"
| r_Peek: "reachable lc \<Longrightarrow> Peek k lc = Some (v, lc') \<Longrightarrow> reachable lc'"
| r_Has: "reachable lc \<Longrightarrow> Has k lc = (b, lc') \<Longrightarrow> reachable lc'"
| r_AdjustCapacity: "reachable lc \<Longrightarrow> AdjustCapacity n lc = Some (d, lc') \<Longrightarrow> reachable lc'"
| r_Drop: "reachable lc \<Longrightarrow> onItemEvicted lc \<Longrightarrow> distinct ks \<Longrightarrow>
           set ks = {k. cache lc k \<noteq> None} \<Longrightarrow> Drop ks lc = Some lc' \<Longrightarrow> reachable lc'"


section \<open>Lemmas about the list and the abstraction\<close>

subsection \<open>Rings of elements\<close>

lemma chain_append:
  "chain f g a (xs @ y # ys) b \<longleftrightarrow> chain f g a xs y \<and> chain f g y ys b"
  by (induction xs arbitrary: a) auto

lemma chain_frame:
  "chain f g a xs b \<Longrightarrow> \<forall>c \<in> set (a # xs). f' c = f c \<Longrightarrow>
   \<forall>c \<in> set (xs @ [b]). g' c = g c \<Longrightarrow> chain f' g' a xs b"
  by (induction xs arbitrary: a) auto

lemma chain_hd: "chain f g a xs b \<Longrightarrow> f a = Some (hd (xs @ [b]))"
  by (cases xs) auto

lemma chain_last: "chain f g a xs b \<Longrightarrow> g b = Some (last (a # xs))"
  by (induction xs arbitrary: a) auto

lemma chain_unlink_pointwise:
  assumes "chain f g a (us @ e # vs) b" "distinct (us @ e # vs)"
    "a \<notin> set (us @ e # vs)" "b \<notin> set (us @ e # vs)"
    "p = last (a # us)" "n = hd (vs @ [b])"
    and F: "\<And>x. f' x = (if x = p then Some n else f x)"
    and G: "\<And>x. g' x = (if x = n then Some p else g x)"
  shows "f e = Some n \<and> g e = Some p \<and> chain f' g' a (us @ vs) b"
  using assms(1-6)
proof (induction us arbitrary: a)
  case Nil
  then have pa: "p = a" by simp
  have fa: "f' a = Some n" and gn: "g' n = Some a"
    by (simp_all add: F G pa)
  show ?case
  proof (cases vs)
    case Nil
    with Nil.prems have "n = b" "f e = Some b" "g e = Some a" by simp_all
    with fa gn pa Nil show ?thesis by simp
  next
    case (Cons n' vs')
    with Nil.prems have n: "n = n'" by simp
    from Cons Nil.prems have *: "chain f g n' vs' b" "f e = Some n'" "g e = Some a"
      by simp_all
    from Cons Nil.prems have "chain f' g' n' vs' b"
      by (intro chain_frame [OF *(1)]) (auto simp: F G pa n)
    with * fa gn show ?thesis by (simp add: pa n Cons)
  qed
next
  case (Cons u us)
  from Cons.prems have c: "f a = Some u" "g u = Some a" "chain f g u (us @ e # vs) b"
    by auto
  from Cons.prems have d: "distinct (us @ e # vs)" "u \<notin> set (us @ e # vs)" "b \<notin> set (us @ e # vs)"
    by auto
  from Cons.prems have p: "p = last (u # us)" by simp
  note ih = Cons.IH [OF c(3) d p Cons.prems(6)]
  have "p \<in> set (u # us)" unfolding p by (rule last_in_set) simp
  then have "a \<noteq> p" using Cons.prems(3) by auto
  then have fa: "f' a = Some u" using c by (simp add: F)
  have "n \<in> set vs \<union> {b}" using Cons.prems(6) by (cases vs) auto
  then have "u \<noteq> n" using Cons.prems(2,4) by auto
  then have gu: "g' u = Some a" using c by (simp add: G)
  show ?case using ih fa gu by simp
qed

lemma chain_unlink:
  assumes "chain f g a (us @ e # vs) b" "distinct (us @ e # vs)"
    "a \<notin> set (us @ e # vs)" "b \<notin> set (us @ e # vs)"
    "p = last (a # us)" "n = hd (vs @ [b])"
  shows "f e = Some n \<and> g e = Some p \<and> chain (f(p := Some n)) (g(n := Some p)) a (us @ vs) b"
  by (rule chain_unlink_pointwise [OF assms]) simp_all

lemma chain_link_front:
  assumes "chain f g a ys b" "e \<notin> set (a # ys @ [b])" "distinct (a # ys)" "b \<notin> set ys"
  shows "chain (f(e := f a, a := Some e)) (g(e := Some a, hd (ys @ [b]) := Some e)) a (e # ys) b"
proof (cases ys)
  case Nil
  with assms show ?thesis by auto
next
  case (Cons y ys')
  from Cons assms have *: "chain f g y ys' b" "f a = Some y"
    by simp_all
  from Cons assms have "chain (f(e := f a, a := Some e)) (g(e := Some a, y := Some e)) y ys' b"
    by (intro chain_frame [OF *(1)]) auto
  with * Cons assms show ?thesis by auto
qed

subsection \<open>The list operations on a ring\<close>

text \<open>
  Each operation of the list, on a list that is the ring of \<open>xs\<close>, returns (no panic)
  a list that is the ring of the expected elements, and leaves the stored pairs alone.
\<close>

lemma dll_list_New: "dll list_New []"
  by (simp add: dll_def list_New_def Init_def root_def)

lemma dll_Init: "root < alloc l \<Longrightarrow> dll (Init l) []"
  by (simp add: dll_def Init_def)

lemma dll_Len: "dll l xs \<Longrightarrow> Len l = int (length xs)"
  by (simp add: dll_def Len_def)

lemma dll_Back: "dll l xs \<Longrightarrow> Back l = (if xs = [] then None else Some (last xs))"
  by (auto simp: dll_def Back_def dest: chain_last)

lemma dll_nxt_root: "dll l xs \<Longrightarrow> nxt l root = Some (hd (xs @ [root]))"
  by (auto simp: dll_def dest: chain_hd)

lemma remove_eq:
  "prv l e = Some p \<Longrightarrow> nxt l e = Some n \<Longrightarrow> p \<noteq> e \<Longrightarrow>
   remove e l = Some (l\<lparr>nxt := (nxt l)(p := Some n, e := None), prv := (prv l)(n := Some p, e := None),
                        owner := (owner l)(e := False), len := len l - 1\<rparr>)"
  by (simp add: remove_def store_next_def store_prev_def)

lemma move_eq:
  "prv l e = Some p \<Longrightarrow> nxt l e = Some n \<Longrightarrow> p \<noteq> e \<Longrightarrow> n \<noteq> e \<Longrightarrow> e \<noteq> at \<Longrightarrow>
   ((nxt l)(p := Some n)) at = Some m \<Longrightarrow>
   move e at l = Some (l\<lparr>nxt := (nxt l)(p := Some n, e := Some m, at := Some e),
                         prv := (prv l)(n := Some p, e := Some at, m := Some e)\<rparr>)"
  by (simp add: move_def store_next_def store_prev_def Let_def)

lemma insertValue_eq:
  "nxt l at = Some m \<Longrightarrow> at \<noteq> alloc l \<Longrightarrow>
   insertValue v at l =
     Some (alloc l, l\<lparr>nxt := (nxt l)(alloc l := Some m, at := Some (alloc l)),
                     prv := (prv l)(alloc l := Some at, m := Some (alloc l)),
                     owner := (owner l)(alloc l := True), Value := (Value l)(alloc l := Some v),
                     alloc := Suc (alloc l), len := len l + 1\<rparr>)"
  by (simp add: insertValue_def insert_at_def store_next_def store_prev_def Let_def)

lemma dll_split:
  assumes "dll l xs" "e \<in> set xs"
  obtains us vs where "xs = us @ e # vs" "e \<notin> set us" "e \<notin> set vs" "remove1 e xs = us @ vs"
proof -
  from assms(2) obtain us vs where xs: "xs = us @ e # vs"
    by (auto dest: split_list)
  from assms(1) have "distinct xs" by (simp add: dll_def)
  with xs have "e \<notin> set us" "e \<notin> set vs" by auto
  then show thesis using xs that by (simp add: remove1_append)
qed

lemma dll_remove:
  assumes "dll l xs" "e \<in> set xs"
  shows "\<exists>l'. remove e l = Some l' \<and> dll l' (remove1 e xs) \<and> Value l' = Value l \<and> alloc l' = alloc l \<and>
              owner l' = (owner l)(e := False)"
proof -
  from assms obtain us vs where xs: "xs = us @ e # vs" and e: "e \<notin> set us" "e \<notin> set vs"
    and r: "remove1 e xs = us @ vs"
    by (rule dll_split)
  define p where "p = last (root # us)"
  define n where "n = hd (vs @ [root])"
  from assms(1) have ch: "chain (nxt l) (prv l) root (us @ e # vs) root" and d: "distinct (us @ e # vs)"
    and nr: "root \<notin> set (us @ e # vs)"
    by (simp_all add: dll_def xs)
  from chain_unlink [OF ch d nr nr p_def n_def]
  have ne: "nxt l e = Some n" and pe: "prv l e = Some p"
    and ch': "chain ((nxt l)(p := Some n)) ((prv l)(n := Some p)) root (us @ vs) root"
    by simp_all
  have "p \<in> set (root # us)" unfolding p_def by (rule last_in_set) simp
  with e nr have "p \<noteq> e" by auto
  let ?l' = "l\<lparr>nxt := (nxt l)(p := Some n, e := None), prv := (prv l)(n := Some p, e := None),
                        owner := (owner l)(e := False), len := len l - 1\<rparr>"
  have rm: "remove e l = Some ?l'"
    using pe ne \<open>p \<noteq> e\<close> by (rule remove_eq)
  have "chain (nxt ?l') (prv ?l') root (us @ vs) root"
    using e nr by (intro chain_frame [OF ch']) auto
  with assms(1) e have "dll ?l' (us @ vs)"
    by (auto simp: dll_def xs)
  with rm r show ?thesis by simp
qed

lemma dll_move_front:
  assumes "dll l xs" "e \<in> set xs" "nxt l root \<noteq> Some e"
  shows "\<exists>l'. move e root l = Some l' \<and> dll l' (e # remove1 e xs) \<and> Value l' = Value l \<and>
              alloc l' = alloc l \<and> owner l' = owner l"
proof -
  from assms(1,2) obtain us vs where xs: "xs = us @ e # vs" and e: "e \<notin> set us" "e \<notin> set vs"
    and r: "remove1 e xs = us @ vs"
    by (rule dll_split)
  define p where "p = last (root # us)"
  define n where "n = hd (vs @ [root])"
  define m where "m = hd ((us @ vs) @ [root])"
  from assms(1) have ch: "chain (nxt l) (prv l) root (us @ e # vs) root" and d: "distinct (us @ e # vs)"
    and nr: "root \<notin> set (us @ e # vs)"
    by (simp_all add: dll_def xs)
  from chain_unlink [OF ch d nr nr p_def n_def]
  have ne: "nxt l e = Some n" and pe: "prv l e = Some p"
    and ch': "chain ((nxt l)(p := Some n)) ((prv l)(n := Some p)) root (us @ vs) root"
    by simp_all
  have "p \<in> set (root # us)" unfolding p_def by (rule last_in_set) simp
  with e nr have "p \<noteq> e" by auto
  have "n \<in> set (vs @ [root])" unfolding n_def by (rule hd_in_set) simp
  with e nr have "n \<noteq> e" by auto
  from nr have "e \<noteq> root" by auto
  have at: "((nxt l)(p := Some n)) root = Some m"
    using chain_hd [OF ch'] by (simp add: m_def)
  let ?l' = "l\<lparr>nxt := (nxt l)(p := Some n, e := Some m, root := Some e),
                         prv := (prv l)(n := Some p, e := Some root, m := Some e)\<rparr>"
  have mv: "move e root l = Some ?l'"
    using pe ne \<open>p \<noteq> e\<close> \<open>n \<noteq> e\<close> \<open>e \<noteq> root\<close> at by (rule move_eq)
  have "chain (((nxt l)(p := Some n))(e := ((nxt l)(p := Some n)) root, root := Some e))
              (((prv l)(n := Some p))(e := Some root, hd ((us @ vs) @ [root]) := Some e)) root (e # us @ vs) root"
    using e nr d by (intro chain_link_front [OF ch']) auto
  then have "chain (nxt ?l') (prv ?l') root (e # us @ vs) root"
    unfolding at m_def [symmetric] by simp
  with assms(1) e have "dll ?l' (e # us @ vs)"
    by (auto simp: dll_def xs)
  with mv r show ?thesis by simp
qed

lemma dll_MoveToFront:
  assumes "dll l xs" "e \<in> set xs"
  shows "\<exists>l'. MoveToFront e l = Some l' \<and> dll l' (e # remove1 e xs) \<and> Value l' = Value l \<and>
              alloc l' = alloc l \<and> owner l' = owner l"
proof (cases "nxt l root = Some e")
  case True
  with dll_nxt_root [OF assms(1)] have "hd (xs @ [root]) = e" by simp
  moreover from assms have "xs \<noteq> []" by auto
  ultimately have "e # remove1 e xs = xs" by (cases xs) auto
  with True assms show ?thesis by (simp add: MoveToFront_def)
next
  case False
  from assms have "owner l e" by (simp add: dll_def)
  with False dll_move_front [OF assms False] show ?thesis
    by (simp add: MoveToFront_def)
qed

lemma dll_Remove:
  assumes "dll l xs" "e \<in> set xs"
  shows "\<exists>l'. Remove e l = Some l' \<and> dll l' (remove1 e xs) \<and> Value l' = Value l \<and> alloc l' = alloc l \<and>
              owner l' = (owner l)(e := False)"
proof -
  from assms have "owner l e" by (simp add: dll_def)
  with dll_remove [OF assms] show ?thesis by (simp add: Remove_def)
qed

lemma dll_PushFront:
  assumes "dll l xs"
  shows "\<exists>l'. PushFront v l = Some (alloc l, l') \<and> dll l' (alloc l # xs) \<and>
              Value l' = (Value l)(alloc l := Some v) \<and> alloc l' = Suc (alloc l)"
proof -
  define m where "m = hd (xs @ [root])"
  from assms have ch: "chain (nxt l) (prv l) root xs root" and d: "distinct xs"
    and nr: "root \<notin> set xs" and lt: "\<forall>a\<in>set xs. a < alloc l" "root < alloc l"
    by (simp_all add: dll_def)
  have nx: "nxt l root = Some m"
    using chain_hd [OF ch] by (simp add: m_def)
  let ?e = "alloc l"
  from lt have fresh: "?e \<notin> set xs" "?e \<noteq> root" by auto
  let ?l' = "l\<lparr>nxt := (nxt l)(?e := Some m, root := Some ?e),
                     prv := (prv l)(?e := Some root, m := Some ?e),
                     owner := (owner l)(?e := True), Value := (Value l)(?e := Some v),
                     alloc := Suc ?e, len := len l + 1\<rparr>"
  have pf: "PushFront v l = Some (?e, ?l')"
    using nx fresh by (simp add: PushFront_def insertValue_eq)
  have "chain ((nxt l)(?e := nxt l root, root := Some ?e))
              ((prv l)(?e := Some root, hd (xs @ [root]) := Some ?e)) root (?e # xs) root"
    using fresh nr d by (intro chain_link_front [OF ch]) auto
  then have "chain (nxt ?l') (prv ?l') root (?e # xs) root"
    by (simp add: nx m_def)
  with assms fresh have "dll ?l' (?e # xs)"
    by (auto simp: dll_def less_Suc_eq)
  with pf show ?thesis by simp
qed

subsection \<open>The abstraction\<close>

lemma chain_walk: "chain f g a xs b \<Longrightarrow> walk f a (length xs) = xs"
  by (induction xs arbitrary: a) auto

lemma dll_elems: "dll l xs \<Longrightarrow> elems l = xs"
  by (auto simp: dll_def elems_def dest: chain_walk)

lemma rep_elems: "rep lc xs \<Longrightarrow> elems (links lc) = xs"
  by (simp add: rep_def dll_elems)

lemma rep_wf: "rep lc xs \<Longrightarrow> well_formed lc"
  by (simp add: well_formed_def rep_elems)

lemma wf_rep: "well_formed lc \<Longrightarrow> rep lc (elems (links lc))"
  by (simp add: well_formed_def)

lemma rep_Value: "rep lc xs \<Longrightarrow> a \<in> set xs \<Longrightarrow> \<exists>p. Value (links lc) a = Some p \<and> cache lc (key p) = Some a"
  by (simp add: rep_def)

lemma rep_cache: "rep lc xs \<Longrightarrow> cache lc k = Some a \<Longrightarrow> a \<in> set xs \<and> (\<exists>v. Value (links lc) a = Some \<lparr>key = k, val = v\<rparr>)"
proof -
  assume "rep lc xs" "cache lc k = Some a"
  then obtain p where "a \<in> set xs" "Value (links lc) a = Some p" "key p = k"
    unfolding rep_def by blast
  then show ?thesis by (cases p) auto
qed

lemma rep_entries: "rep lc xs \<Longrightarrow> map Some (entries lc) = map (Value (links lc)) xs"
proof -
  assume r: "rep lc xs"
  have *: "\<forall>a \<in> set ys. \<exists>p. f a = Some p \<Longrightarrow> map Some (List.map_filter f ys) = map f ys"
    for f :: "addr \<Rightarrow> ('k, 'v) pair option" and ys
    by (induction ys) (auto simp: List.map_filter_simps)
  from r have "\<forall>a \<in> set xs. \<exists>p. Value (links lc) a = Some p"
    unfolding rep_def by blast
  from * [OF this] r show ?thesis
    by (simp add: entries_def rep_elems)
qed

lemma rep_length: "rep lc xs \<Longrightarrow> length (entries lc) = length xs"
  by (drule rep_entries, drule arg_cong [where f = length]) simp

lemma rep_Size: "rep lc xs \<Longrightarrow> Size lc = int (length xs)"
  by (simp add: rep_def Size_def dll_Len)

lemma rep_key_inj:
  assumes "rep lc xs" "a \<in> set xs" "b \<in> set xs" "Value (links lc) a = Some p" "Value (links lc) b = Some q"
    "key p = key q"
  shows "a = b"
  using assms unfolding rep_def by (metis option.inject)

lemma rep_entries_the: "rep lc xs \<Longrightarrow> entries lc = map (\<lambda>a. the (Value (links lc) a)) xs"
proof -
  assume "rep lc xs"
  then have "map the (map Some (entries lc)) = map the (map (Value (links lc)) xs)"
    by (simp only: rep_entries)
  then show ?thesis by (simp add: comp_def)
qed

lemma remove1_filter_map:
  assumes "distinct xs" "inj_on h (set xs)" "e \<in> set xs" "\<forall>a \<in> set xs. G (F a) = h a"
  shows "map F (remove1 e xs) = filter (\<lambda>q. G q \<noteq> h e) (map F xs)"
  using assms
proof (induction xs)
  case Nil
  then show ?case by simp
next
  case (Cons x xs)
  show ?case
  proof (cases "x = e")
    case True
    from Cons.prems have "\<forall>a \<in> set xs. h a \<noteq> h e"
      using True by (auto simp: inj_on_def)
    then have "filter (\<lambda>q. G q \<noteq> h e) (map F xs) = map F xs"
      using Cons.prems(4) by (auto simp: filter_id_conv)
    with True Cons.prems(4) show ?thesis by simp
  next
    case False
    with Cons.prems have "h x \<noteq> h e" by (auto simp: inj_on_def)
    moreover from Cons.prems False have "map F (remove1 e xs) = filter (\<lambda>q. G q \<noteq> h e) (map F xs)"
      by (intro Cons.IH) (auto simp: inj_on_def)
    ultimately show ?thesis using False Cons.prems(4) by simp
  qed
qed

lemma rep_distinct: "rep lc xs \<Longrightarrow> distinct xs"
  by (simp add: rep_def dll_def)

lemma rep_remove1_entries:
  assumes "rep lc xs" "e \<in> set xs" "Value (links lc) e = Some p"
  shows "map (\<lambda>a. the (Value (links lc) a)) (remove1 e xs) = filter (\<lambda>q. key q \<noteq> key p) (entries lc)"
proof -
  let ?F = "\<lambda>a. the (Value (links lc) a)"
  have inj: "inj_on (\<lambda>a. key (?F a)) (set xs)"
  proof (rule inj_onI)
    fix a b assume ab: "a \<in> set xs" "b \<in> set xs" "key (?F a) = key (?F b)"
    from rep_Value [OF assms(1) ab(1)] rep_Value [OF assms(1) ab(2)]
    obtain p q where "Value (links lc) a = Some p" "Value (links lc) b = Some q" by blast
    with ab show "a = b" using rep_key_inj [OF assms(1)] by simp
  qed
  have "map ?F (remove1 e xs) = filter (\<lambda>q. key q \<noteq> key (?F e)) (map ?F xs)"
    by (rule remove1_filter_map [OF rep_distinct [OF assms(1)] inj assms(2)]) simp
  with assms show ?thesis by (simp add: rep_entries_the)
qed

lemma rep_frame:
  assumes "rep lc xs"
  shows "rep (lc\<lparr>evicted := ev\<rparr>) xs" "rep (lc\<lparr>capacity := c\<rparr>) xs"
  using assms by (simp_all add: rep_def)

lemma purgeLRUItem_rep:
  assumes "rep lc xs" "e \<in> set xs" "Value (links lc) e = Some p"
  shows "\<exists>l'. purgeLRUItem e lc = Some (lc\<lparr>links := l', cache := (cache lc)(key p := None)\<rparr>) \<and>
              Value l' = Value (links lc) \<and>
              rep (lc\<lparr>links := l', cache := (cache lc)(key p := None)\<rparr>) (remove1 e xs)"
proof -
  from assms(1) have d: "dll (links lc) xs" by (simp add: rep_def)
  from dll_Remove [OF d assms(2)] obtain l' where l': "Remove e (links lc) = Some l'"
    "dll l' (remove1 e xs)" "Value l' = Value (links lc)"
    by blast
  let ?lc' = "lc\<lparr>links := l', cache := (cache lc)(key p := None)\<rparr>"
  have pg: "purgeLRUItem e lc = Some ?lc'"
    using l' assms(3) by (simp add: purgeLRUItem_def)
  from rep_Value [OF assms(1,2)] assms(3) have ce: "cache lc (key p) = Some e" by auto
  have A: "\<exists>q. Value l' a = Some q \<and> cache ?lc' (key q) = Some a" if "a \<in> set (remove1 e xs)" for a
  proof -
    from that rep_distinct [OF assms(1)] have a: "a \<in> set xs" "a \<noteq> e" by auto
    from rep_Value [OF assms(1) a(1)] obtain q where q: "Value (links lc) a = Some q" "cache lc (key q) = Some a"
      by blast
    with ce a have "key q \<noteq> key p" by auto
    with q l' show ?thesis by simp
  qed
  have B: "a \<in> set (remove1 e xs) \<and> (\<exists>q. Value l' a = Some q \<and> key q = k)" if "cache ?lc' k = Some a" for k a
  proof -
    from that have k: "k \<noteq> key p" "cache lc k = Some a" by (auto split: if_splits)
    from rep_cache [OF assms(1) k(2)] obtain v where a: "a \<in> set xs" "Value (links lc) a = Some \<lparr>key = k, val = v\<rparr>"
      by blast
    with assms(3) k have "a \<noteq> e" by auto
    with a l' rep_distinct [OF assms(1)] show ?thesis by auto
  qed
  from l' A B have "rep ?lc' (remove1 e xs)"
    unfolding rep_def by simp
  with pg l' show ?thesis by blast
qed

lemma evict_rep:
  assumes "rep lc xs" "e \<in> set xs" "Value (links lc) e = Some p"
  shows "\<exists>lc'. (purgeLRUItem e lc \<bind> tryEvict e) = Some lc' \<and> rep lc' (remove1 e xs) \<and>
               Value (links lc') = Value (links lc) \<and> cache lc' = (cache lc)(key p := None) \<and>
               capacity lc' = capacity lc \<and> onItemEvicted lc' = onItemEvicted lc \<and>
               evicted lc' = evicted lc @ (if onItemEvicted lc then [p] else [])"
proof -
  from purgeLRUItem_rep [OF assms] obtain l' where
    pg: "purgeLRUItem e lc = Some (lc\<lparr>links := l', cache := (cache lc)(key p := None)\<rparr>)"
    and v: "Value l' = Value (links lc)"
    and r: "rep (lc\<lparr>links := l', cache := (cache lc)(key p := None)\<rparr>) (remove1 e xs)"
    by blast
  show ?thesis
  proof (cases "onItemEvicted lc")
    case True
    with pg v assms(3) rep_frame(1) [OF r] show ?thesis
      by (simp add: tryEvict_def)
  next
    case False
    with pg v r show ?thesis
      by (simp add: tryEvict_def)
  qed
qed

subsection \<open>The cache operations on the representation\<close>

lemma rep_Value_update:
  assumes "rep lc xs" "Value (links lc) e = Some p" "l' = (links lc)\<lparr>Value := (Value (links lc))(e := Some (p\<lparr>val := v\<rparr>))\<rparr>"
  shows "rep (lc\<lparr>links := l'\<rparr>) xs"
proof -
  from assms have "dll l' xs" by (simp add: rep_def dll_def)
  moreover have "\<exists>q. Value l' a = Some q \<and> cache lc (key q) = Some a" if "a \<in> set xs" for a
    using rep_Value [OF assms(1) that] assms(2,3) by (cases "a = e") auto
  moreover have "a \<in> set xs \<and> (\<exists>q. Value l' a = Some q \<and> key q = k)" if "cache lc k = Some a" for k a
    using rep_cache [OF assms(1) that] assms(2,3) by (cases "a = e") auto
  ultimately show ?thesis unfolding rep_def by simp
qed

lemma rep_links_MoveToFront:
  assumes "rep lc xs" "dll l' ys" "set ys = set xs" "Value l' = Value (links lc)"
  shows "rep (lc\<lparr>links := l'\<rparr>) ys"
  using assms unfolding rep_def by simp

lemma touch_rep:
  assumes "rep lc xs" "cache lc k = Some e"
  shows "\<exists>l' w. MoveToFront e (links lc) = Some l' \<and> Value l' = Value (links lc) \<and>
           Value l' e = Some \<lparr>key = k, val = w\<rparr> \<and> e \<in> set xs \<and> rep (lc\<lparr>links := l'\<rparr>) (e # remove1 e xs)"
proof -
  from rep_cache [OF assms] obtain w where e: "e \<in> set xs" "Value (links lc) e = Some \<lparr>key = k, val = w\<rparr>"
    by blast
  from assms(1) have d: "dll (links lc) xs" by (simp add: rep_def)
  from dll_MoveToFront [OF d e(1)] obtain l' where l': "MoveToFront e (links lc) = Some l'"
    "dll l' (e # remove1 e xs)" "Value l' = Value (links lc)"
    by blast
  from e(1) have "set (e # remove1 e xs) = set xs"
    using rep_distinct [OF assms(1)] by auto
  from rep_links_MoveToFront [OF assms(1) l'(2) this l'(3)] l' e show ?thesis
    by auto
qed

lemma Get_rep_hit:
  assumes "rep lc xs" "cache lc k = Some e"
  shows "\<exists>lc' w. Get k lc = Some ((w, True), lc') \<and> Value (links lc) e = Some \<lparr>key = k, val = w\<rparr> \<and>
           e \<in> set xs \<and> rep lc' (e # remove1 e xs) \<and> Value (links lc') = Value (links lc) \<and>
           cache lc' = cache lc \<and> capacity lc' = capacity lc \<and> onItemEvicted lc' = onItemEvicted lc \<and>
           evicted lc' = evicted lc"
proof -
  from touch_rep [OF assms] obtain l' w where "MoveToFront e (links lc) = Some l'"
    "Value l' = Value (links lc)" "Value l' e = Some \<lparr>key = k, val = w\<rparr>" "e \<in> set xs"
    "rep (lc\<lparr>links := l'\<rparr>) (e # remove1 e xs)"
    by blast
  with assms(2) show ?thesis by (simp add: Get_def)
qed

lemma Put_rep_hit:
  assumes "rep lc xs" "cache lc k = Some e"
  shows "\<exists>lc'. Put k v lc = Some (False, lc') \<and> e \<in> set xs \<and> rep lc' (e # remove1 e xs) \<and>
           Value (links lc') = (Value (links lc))(e := Some \<lparr>key = k, val = v\<rparr>) \<and>
           cache lc' = cache lc \<and> capacity lc' = capacity lc \<and> onItemEvicted lc' = onItemEvicted lc \<and>
           evicted lc' = evicted lc \<and> Size lc' = Size lc"
proof -
  from touch_rep [OF assms] obtain l' w where l': "MoveToFront e (links lc) = Some l'"
    "Value l' = Value (links lc)" "Value l' e = Some \<lparr>key = k, val = w\<rparr>" "e \<in> set xs"
    "rep (lc\<lparr>links := l'\<rparr>) (e # remove1 e xs)"
    by blast
  let ?l'' = "l'\<lparr>Value := (Value l')(e := Some (\<lparr>key = k, val = w\<rparr>\<lparr>val := v\<rparr>))\<rparr>"
  from rep_Value_update [OF l'(5), of e "\<lparr>key = k, val = w\<rparr>" ?l'' v] l'(3)
  have r: "rep (lc\<lparr>links := ?l''\<rparr>) (e # remove1 e xs)" by simp
  have "Put k v lc = Some (False, lc\<lparr>links := ?l''\<rparr>)"
    using assms(2) l' by (simp add: Put_def)
  moreover have "Size (lc\<lparr>links := ?l''\<rparr>) = Size lc"
  proof -
    from l'(4) have "length xs \<noteq> 0" by auto
    then show ?thesis
      using rep_Size [OF r] rep_Size [OF assms(1)] l'(4) by (simp add: length_remove1)
  qed
  ultimately show ?thesis using r l' by simp
qed

lemma PushFront_rep:
  assumes "rep lc xs" "cache lc k = None"
  shows "\<exists>l'. PushFront \<lparr>key = k, val = v\<rparr> (links lc) = Some (alloc (links lc), l') \<and>
           alloc (links lc) \<notin> set xs \<and>
           Value l' = (Value (links lc))(alloc (links lc) := Some \<lparr>key = k, val = v\<rparr>) \<and>
           rep (lc\<lparr>links := l', cache := (cache lc)(k := Some (alloc (links lc)))\<rparr>) (alloc (links lc) # xs)"
proof -
  let ?e = "alloc (links lc)"
  from assms(1) have d: "dll (links lc) xs" by (simp add: rep_def)
  then have fresh: "?e \<notin> set xs" by (auto simp: dll_def)
  from dll_PushFront [OF d] obtain l' where l': "PushFront \<lparr>key = k, val = v\<rparr> (links lc) = Some (?e, l')"
    "dll l' (?e # xs)" "Value l' = (Value (links lc))(?e := Some \<lparr>key = k, val = v\<rparr>)"
    by blast
  let ?lc' = "lc\<lparr>links := l', cache := (cache lc)(k := Some ?e)\<rparr>"
  have A: "\<exists>q. Value l' a = Some q \<and> cache ?lc' (key q) = Some a" if "a \<in> set (?e # xs)" for a
  proof (cases "a = ?e")
    case True
    with l' show ?thesis by simp
  next
    case False
    with that have a: "a \<in> set xs" by simp
    from rep_Value [OF assms(1) a] obtain q where q: "Value (links lc) a = Some q" "cache lc (key q) = Some a"
      by blast
    with assms(2) have "key q \<noteq> k" by auto
    with q l' False show ?thesis by simp
  qed
  have B: "a \<in> set (?e # xs) \<and> (\<exists>q. Value l' a = Some q \<and> key q = k')" if "cache ?lc' k' = Some a" for k' a
  proof (cases "k' = k")
    case True
    with that l' show ?thesis by simp
  next
    case False
    with that have "cache lc k' = Some a" by simp
    from rep_cache [OF assms(1) this] fresh l' show ?thesis by auto
  qed
  from l'(2) A B have "rep ?lc' (?e # xs)" unfolding rep_def by simp
  with l' fresh show ?thesis by blast
qed

lemma remove1_last: "distinct xs \<Longrightarrow> xs \<noteq> [] \<Longrightarrow> remove1 (last xs) xs = butlast xs"
  by (induction xs) (auto simp: remove1_idem)

lemma Back_rep: "rep lc xs \<Longrightarrow> Back (links lc) = (if xs = [] then None else Some (last xs))"
  by (simp add: rep_def dll_Back)

lemma evict_back_rep:
  assumes "rep lc xs" "xs \<noteq> []"
  shows "\<exists>lc' p. Back (links lc) = Some (last xs) \<and> Value (links lc) (last xs) = Some p \<and>
           (purgeLRUItem (last xs) lc \<bind> tryEvict (last xs)) = Some lc' \<and> rep lc' (butlast xs) \<and>
           Value (links lc') = Value (links lc) \<and> cache lc' = (cache lc)(key p := None) \<and>
           capacity lc' = capacity lc \<and> onItemEvicted lc' = onItemEvicted lc \<and>
           evicted lc' = evicted lc @ (if onItemEvicted lc then [p] else [])"
proof -
  from assms have e: "last xs \<in> set xs" by simp
  from rep_Value [OF assms(1) e] obtain p where p: "Value (links lc) (last xs) = Some p" by blast
  from evict_rep [OF assms(1) e p] Back_rep [OF assms(1)] assms(2) p
    remove1_last [OF rep_distinct [OF assms(1)] assms(2)]
  show ?thesis by auto
qed

subsection \<open>What the observers return on a well-formed cache\<close>

lemma wf_obtain_rep:
  assumes "well_formed lc"
  obtains xs where "rep lc xs" "entries lc = map (\<lambda>a. the (Value (links lc) a)) xs"
  using assms rep_entries_the [of lc "elems (links lc)"] by (auto simp: well_formed_def)

lemma rep_entry_at:
  assumes "rep lc xs" "a \<in> set xs"
  shows "\<exists>p. Value (links lc) a = Some p \<and> p \<in> set (entries lc) \<and> cache lc (key p) = Some a"
proof -
  from rep_Value [OF assms] obtain p where p: "Value (links lc) a = Some p" "cache lc (key p) = Some a"
    by blast
  from assms(2) have "the (Value (links lc) a) \<in> set (entries lc)"
    by (simp add: rep_entries_the [OF assms(1)])
  with p show ?thesis by simp
qed

lemma rep_entry_cache:
  assumes "rep lc xs" "p \<in> set (entries lc)"
  shows "\<exists>a. a \<in> set xs \<and> Value (links lc) a = Some p \<and> cache lc (key p) = Some a"
proof -
  from assms obtain a where a: "a \<in> set xs" "p = the (Value (links lc) a)"
    by (auto simp: rep_entries_the [OF assms(1)])
  with rep_Value [OF assms(1) a(1)] show ?thesis by auto
qed

lemma wf_Has: "well_formed lc \<Longrightarrow> fst (Has k lc) \<longleftrightarrow> k \<in> key ` set (entries lc)"
proof -
  assume "well_formed lc"
  then obtain xs where r: "rep lc xs" by (auto simp: well_formed_def)
  show ?thesis
  proof
    assume "fst (Has k lc)"
    then obtain a where "cache lc k = Some a" by (auto simp: Has_def)
    from rep_cache [OF r this] obtain v where a: "a \<in> set xs" "Value (links lc) a = Some \<lparr>key = k, val = v\<rparr>"
      by blast
    from rep_entry_at [OF r a(1)] a(2) have "\<lparr>key = k, val = v\<rparr> \<in> set (entries lc)" by auto
    then show "k \<in> key ` set (entries lc)" by force
  next
    assume "k \<in> key ` set (entries lc)"
    then obtain p where "p \<in> set (entries lc)" "key p = k" by auto
    with rep_entry_cache [OF r] show "fst (Has k lc)" by (fastforce simp: Has_def)
  qed
qed

lemma wf_distinct_keys: "well_formed lc \<Longrightarrow> distinct (map key (entries lc))"
proof -
  assume "well_formed lc"
  then obtain xs where r: "rep lc xs" and e: "entries lc = map (\<lambda>a. the (Value (links lc) a)) xs"
    by (rule wf_obtain_rep)
  have "inj_on (\<lambda>a. key (the (Value (links lc) a))) (set xs)"
  proof (rule inj_onI)
    fix a b assume ab: "a \<in> set xs" "b \<in> set xs"
      "key (the (Value (links lc) a)) = key (the (Value (links lc) b))"
    from rep_Value [OF r ab(1)] rep_Value [OF r ab(2)]
    obtain p q where "Value (links lc) a = Some p" "Value (links lc) b = Some q" by blast
    with ab show "a = b" using rep_key_inj [OF r] by simp
  qed
  with rep_distinct [OF r] show ?thesis
    by (simp add: e distinct_map comp_def)
qed

lemma wf_Size: "well_formed lc \<Longrightarrow> Size lc = int (length (entries lc))"
  by (auto simp: well_formed_def rep_Size rep_length)

lemma find_distinct_keys:
  "distinct (map key ps) \<Longrightarrow> p \<in> set ps \<Longrightarrow> find (\<lambda>q. key q = key p) ps = Some p"
  by (induction ps) force+

lemma wf_Peek:
  assumes "well_formed lc"
  shows "Peek k lc = Some (case find (\<lambda>q. key q = k) (entries lc) of None \<Rightarrow> nil | Some p \<Rightarrow> val p, lc)"
proof -
  from assms obtain xs where r: "rep lc xs" by (auto simp: well_formed_def)
  show ?thesis
  proof (cases "cache lc k")
    case None
    then have "\<not> fst (Has k lc)" by (simp add: Has_def)
    with wf_Has [OF assms] have "k \<notin> key ` set (entries lc)" by simp
    then have "find (\<lambda>q. key q = k) (entries lc) = None"
      by (auto simp: find_None_iff)
    with None show ?thesis by (simp add: Peek_def)
  next
    case (Some a)
    from rep_cache [OF r Some] obtain v where a: "a \<in> set xs" "Value (links lc) a = Some \<lparr>key = k, val = v\<rparr>"
      by blast
    from rep_entry_at [OF r a(1)] a(2) have "\<lparr>key = k, val = v\<rparr> \<in> set (entries lc)" by auto
    from find_distinct_keys [OF wf_distinct_keys [OF assms] this]
    have "find (\<lambda>q. key q = k) (entries lc) = Some \<lparr>key = k, val = v\<rparr>" by simp
    with Some a show ?thesis by (simp add: Peek_def)
  qed
qed

lemma wf_LeastRecentlyUsed:
  assumes "well_formed lc"
  shows "LeastRecentlyUsed lc =
           Some (if entries lc = [] then (nil, nil) else (key (last (entries lc)), val (last (entries lc))))"
proof -
  from assms obtain xs where r: "rep lc xs" and e: "entries lc = map (\<lambda>a. the (Value (links lc) a)) xs"
    by (rule wf_obtain_rep)
  show ?thesis
  proof (cases "xs = []")
    case True
    with Back_rep [OF r] e show ?thesis by (simp add: LeastRecentlyUsed_def)
  next
    case False
    then have "last xs \<in> set xs" by simp
    from rep_Value [OF r this] obtain p where "Value (links lc) (last xs) = Some p" by blast
    with False Back_rep [OF r] e show ?thesis
      by (simp add: LeastRecentlyUsed_def last_map)
  qed
qed

lemma chain_prv: "chain f g a (us @ e # vs) b \<Longrightarrow> g e = Some (last (a # us))"
  using chain_last [of f g a us e] by (simp add: chain_append)

lemma Keys_loop_dll:
  assumes "dll l (ys @ zs)" "\<forall>a \<in> set ys. \<exists>p. Value l a = Some p"
  shows "Keys_loop l (length ys) (if ys = [] then None else Some (last ys)) =
           Some (rev (map (\<lambda>a. key (the (Value l a))) ys))"
  using assms
proof (induction ys arbitrary: zs rule: rev_induct)
  case Nil
  then show ?case by simp
next
  case (snoc y ys)
  from snoc.prems(1) have d: "dll l (ys @ y # zs)" by simp
  then have py: "prv l y = Some (last (root # ys))" "owner l y" and nr: "root \<notin> set ys"
    by (auto simp: dll_def dest: chain_prv)
  have "last ys \<noteq> root" if "ys \<noteq> []"
    using last_in_set [OF that] nr by auto
  with py have "Prev y l = (if ys = [] then None else Some (last ys))"
    by (auto simp: Prev_def)
  moreover from snoc.prems(2) obtain p where "Value l y = Some p" by auto
  moreover have "Keys_loop l (length ys) (if ys = [] then None else Some (last ys)) =
           Some (rev (map (\<lambda>a. key (the (Value l a))) ys))"
    using snoc.prems(2) by (intro snoc.IH [OF d]) simp
  ultimately show ?case by simp
qed

lemma wf_Keys:
  assumes "well_formed lc"
  shows "Keys lc = Some (rev (map key (entries lc)), lc)"
proof -
  from assms obtain xs where r: "rep lc xs" and e: "entries lc = map (\<lambda>a. the (Value (links lc) a)) xs"
    by (rule wf_obtain_rep)
  from r have d: "dll (links lc) (xs @ [])" and v: "\<forall>a \<in> set xs. \<exists>p. Value (links lc) a = Some p"
    unfolding rep_def by auto
  from Keys_loop_dll [OF d v] Back_rep [OF r] dll_Len [of "links lc" xs] d
  show ?thesis by (simp add: Keys_def e comp_def)
qed

subsection \<open>The cache operations in terms of the entries\<close>

lemma map_Value_remove1:
  assumes "rep lc xs" "e \<in> set xs" "Value (links lc) e = Some p"
    "\<forall>a. a \<noteq> e \<longrightarrow> V a = Value (links lc) a"
  shows "map (\<lambda>a. the (V a)) (remove1 e xs) = filter (\<lambda>q. key q \<noteq> key p) (entries lc)"
proof -
  from rep_distinct [OF assms(1)] have "e \<notin> set (remove1 e xs)" by simp
  with assms(4) have "map (\<lambda>a. the (V a)) (remove1 e xs) = map (\<lambda>a. the (Value (links lc) a)) (remove1 e xs)"
    by (intro map_cong) auto
  with rep_remove1_entries [OF assms(1-3)] show ?thesis by simp
qed

lemma Has_cache: "fst (Has k lc) \<longleftrightarrow> cache lc k \<noteq> None"
  by (simp add: Has_def)

lemma Put_hit:
  assumes "well_formed lc" "fst (Has k lc)"
  shows "\<exists>lc'. Put k v lc = Some (False, lc') \<and> well_formed lc' \<and>
           entries lc' = \<lparr>key = k, val = v\<rparr> # filter (\<lambda>q. key q \<noteq> k) (entries lc) \<and>
           Size lc' = Size lc \<and> capacity lc' = capacity lc \<and>
           onItemEvicted lc' = onItemEvicted lc \<and> evicted lc' = evicted lc"
proof -
  from assms(1) obtain xs where r: "rep lc xs" by (auto simp: well_formed_def)
  from assms(2) obtain e where c: "cache lc k = Some e" by (auto simp: Has_def)
  from rep_cache [OF r c] obtain w where e: "e \<in> set xs" "Value (links lc) e = Some \<lparr>key = k, val = w\<rparr>"
    by blast
  from Put_rep_hit [OF r c, of v] obtain lc' where lc': "Put k v lc = Some (False, lc')"
    "rep lc' (e # remove1 e xs)" "Value (links lc') = (Value (links lc))(e := Some \<lparr>key = k, val = v\<rparr>)"
    "capacity lc' = capacity lc" "onItemEvicted lc' = onItemEvicted lc" "evicted lc' = evicted lc"
    "Size lc' = Size lc"
    by blast
  have "map (\<lambda>a. the (Value (links lc') a)) (remove1 e xs) = filter (\<lambda>q. key q \<noteq> key \<lparr>key = k, val = w\<rparr>) (entries lc)"
    by (rule map_Value_remove1 [OF r e]) (simp add: lc'(3))
  then have "entries lc' = \<lparr>key = k, val = v\<rparr> # filter (\<lambda>q. key q \<noteq> k) (entries lc)"
    by (simp add: rep_entries_the [OF lc'(2)] lc'(3))
  with lc' rep_wf [OF lc'(2)] show ?thesis by simp
qed

lemma Get_hit:
  assumes "well_formed lc" "p \<in> set (entries lc)"
  shows "\<exists>lc'. Get (key p) lc = Some ((val p, True), lc') \<and> well_formed lc' \<and>
           entries lc' = p # filter (\<lambda>q. key q \<noteq> key p) (entries lc) \<and>
           capacity lc' = capacity lc \<and>
           onItemEvicted lc' = onItemEvicted lc \<and> evicted lc' = evicted lc"
proof -
  from assms(1) obtain xs where r: "rep lc xs" by (auto simp: well_formed_def)
  from rep_entry_cache [OF r assms(2)] obtain e where e: "e \<in> set xs" "Value (links lc) e = Some p"
    and c: "cache lc (key p) = Some e"
    by blast
  from Get_rep_hit [OF r c] obtain lc' w where g: "Get (key p) lc = Some ((w, True), lc')"
    "Value (links lc) e = Some \<lparr>key = key p, val = w\<rparr>"
    and lc'': "rep lc' (e # remove1 e xs)" "Value (links lc') = Value (links lc)"
    "capacity lc' = capacity lc" "onItemEvicted lc' = onItemEvicted lc" "evicted lc' = evicted lc"
    by blast
  from g(2) e(2) have "val p = w" by (cases p) simp
  with g(1) have "Get (key p) lc = Some ((val p, True), lc')" by simp
  note lc' = this lc''
  have "map (\<lambda>a. the (Value (links lc') a)) (remove1 e xs) = filter (\<lambda>q. key q \<noteq> key p) (entries lc)"
    by (rule map_Value_remove1 [OF r e]) (simp add: lc'(3))
  then have "entries lc' = p # filter (\<lambda>q. key q \<noteq> key p) (entries lc)"
    by (simp add: rep_entries_the [OF lc'(2)] lc'(3) e(2))
  with lc' rep_wf [OF lc'(2)] show ?thesis by simp
qed

lemma Get_miss: "\<not> fst (Has k lc) \<Longrightarrow> Get k lc = Some ((nil, False), lc)"
  by (simp add: Get_def Has_def)

lemma Del_hit:
  assumes "well_formed lc" "fst (Has k lc)"
  shows "\<exists>lc'. Del k lc = Some (True, lc') \<and> well_formed lc' \<and>
           entries lc' = filter (\<lambda>q. key q \<noteq> k) (entries lc) \<and>
           capacity lc' = capacity lc \<and>
           onItemEvicted lc' = onItemEvicted lc \<and> evicted lc' = evicted lc"
proof -
  from assms(1) obtain xs where r: "rep lc xs" by (auto simp: well_formed_def)
  from assms(2) obtain e where c: "cache lc k = Some e" by (auto simp: Has_def)
  from rep_cache [OF r c] obtain w where e: "e \<in> set xs" "Value (links lc) e = Some \<lparr>key = k, val = w\<rparr>"
    by blast
  from purgeLRUItem_rep [OF r e] obtain l' where l':
    "purgeLRUItem e lc = Some (lc\<lparr>links := l', cache := (cache lc)(k := None)\<rparr>)"
    "Value l' = Value (links lc)"
    "rep (lc\<lparr>links := l', cache := (cache lc)(k := None)\<rparr>) (remove1 e xs)"
    by auto
  let ?lc' = "lc\<lparr>links := l', cache := (cache lc)(k := None)\<rparr>"
  have "map (\<lambda>a. the (Value (links ?lc') a)) (remove1 e xs) = filter (\<lambda>q. key q \<noteq> key \<lparr>key = k, val = w\<rparr>) (entries lc)"
    by (rule map_Value_remove1 [OF r e]) (simp add: l'(2))
  then have "entries ?lc' = filter (\<lambda>q. key q \<noteq> k) (entries lc)"
    by (simp add: rep_entries_the [OF l'(3)])
  moreover have "Del k lc = Some (True, ?lc')"
    using c l'(1) by (simp add: Del_def)
  ultimately show ?thesis using rep_wf [OF l'(3)] by simp
qed

lemma Del_miss: "\<not> fst (Has k lc) \<Longrightarrow> Del k lc = Some (False, lc)"
  by (simp add: Del_def Has_def)

lemma rep_last_entry:
  assumes "rep lc xs" "xs \<noteq> []"
  shows "Value (links lc) (last xs) = Some (last (entries lc))"
proof -
  from assms have "last xs \<in> set xs" by simp
  from rep_Value [OF assms(1) this] assms(2) show ?thesis
    by (auto simp: rep_entries_the [OF assms(1)] last_map)
qed

lemma evict_back:
  assumes "well_formed lc" "entries lc \<noteq> []"
  shows "\<exists>e lc'. Back (links lc) = Some e \<and> (purgeLRUItem e lc \<bind> tryEvict e) = Some lc' \<and> well_formed lc' \<and>
           entries lc' = butlast (entries lc) \<and> capacity lc' = capacity lc \<and>
           onItemEvicted lc' = onItemEvicted lc \<and>
           evicted lc' = evicted lc @ (if onItemEvicted lc then [last (entries lc)] else [])"
proof -
  from assms(1) obtain xs where r: "rep lc xs" by (auto simp: well_formed_def)
  with assms(2) have ne: "xs \<noteq> []" by (auto simp: rep_entries_the)
  from evict_back_rep [OF r ne] rep_last_entry [OF r ne]
  obtain lc' where lc': "Back (links lc) = Some (last xs)"
    "(purgeLRUItem (last xs) lc \<bind> tryEvict (last xs)) = Some lc'" "rep lc' (butlast xs)"
    "Value (links lc') = Value (links lc)" "capacity lc' = capacity lc"
    "onItemEvicted lc' = onItemEvicted lc"
    "evicted lc' = evicted lc @ (if onItemEvicted lc then [last (entries lc)] else [])"
    by auto
  have "entries lc' = butlast (entries lc)"
    by (simp add: rep_entries_the [OF lc'(3)] rep_entries_the [OF r] lc'(4) map_butlast)
  with lc' rep_wf [OF lc'(3)] show ?thesis by blast
qed

lemma Put_miss:
  assumes "well_formed lc" "\<not> fst (Has k lc)"
  shows "\<exists>lc'. Put k v lc = Some (Size lc + 1 > capacity lc, lc') \<and> well_formed lc' \<and>
           entries lc' = (if Size lc + 1 > capacity lc then butlast (\<lparr>key = k, val = v\<rparr> # entries lc)
                          else \<lparr>key = k, val = v\<rparr> # entries lc) \<and>
           capacity lc' = capacity lc \<and> onItemEvicted lc' = onItemEvicted lc \<and>
           evicted lc' = evicted lc @ (if Size lc + 1 > capacity lc \<and> onItemEvicted lc
                                        then [last (\<lparr>key = k, val = v\<rparr> # entries lc)] else [])"
proof -
  from assms(1) obtain xs where r: "rep lc xs" by (auto simp: well_formed_def)
  from assms(2) have c: "cache lc k = None" by (simp add: Has_def)
  let ?e = "alloc (links lc)"
  from PushFront_rep [OF r c, of v] obtain l' where l':
    "PushFront \<lparr>key = k, val = v\<rparr> (links lc) = Some (?e, l')" "?e \<notin> set xs"
    "Value l' = (Value (links lc))(?e := Some \<lparr>key = k, val = v\<rparr>)"
    "rep (lc\<lparr>links := l', cache := (cache lc)(k := Some ?e)\<rparr>) (?e # xs)"
    by blast
  let ?lc1 = "lc\<lparr>links := l', cache := (cache lc)(k := Some ?e)\<rparr>"
  from l'(2,3) have "map (\<lambda>a. the (Value l' a)) xs = map (\<lambda>a. the (Value (links lc) a)) xs"
    by (intro map_cong) auto
  then have e1: "entries ?lc1 = \<lparr>key = k, val = v\<rparr> # entries lc"
    by (simp add: rep_entries_the [OF l'(4)] rep_entries_the [OF r] l'(3))
  have w1: "well_formed ?lc1" by (rule rep_wf [OF l'(4)])
  have s1: "Len (links ?lc1) = Size lc + 1"
    using rep_Size [OF l'(4)] rep_Size [OF r] by (simp add: Size_def)
  show ?thesis
  proof (cases "Size lc + 1 > capacity lc")
    case True
    from evict_back [OF w1] e1 obtain b lc' where lc': "Back l' = Some b"
      "(purgeLRUItem b ?lc1 \<bind> tryEvict b) = Some lc'" "well_formed lc'"
      "entries lc' = butlast (\<lparr>key = k, val = v\<rparr> # entries lc)" "capacity lc' = capacity lc"
      "onItemEvicted lc' = onItemEvicted lc"
      "evicted lc' = evicted lc @ (if onItemEvicted lc then [last (\<lparr>key = k, val = v\<rparr> # entries lc)] else [])"
      by auto
    from lc'(2) obtain lc2 where "purgeLRUItem b ?lc1 = Some lc2" "tryEvict b lc2 = Some lc'"
      by (auto simp: bind_eq_Some_conv)
    with True c l'(1) s1 lc'(1) have "Put k v lc = Some (True, lc')"
      by (simp add: Put_def)
    with True lc' show ?thesis by simp
  next
    case False
    with c l'(1) s1 have "Put k v lc = Some (False, ?lc1)"
      by (simp add: Put_def)
    with False w1 e1 show ?thesis by simp
  qed
qed

subsection \<open>New, AdjustCapacity and sequences of Put\<close>

lemma wf_New: "New bufCap cb = Inr lc \<Longrightarrow> well_formed lc \<and> entries lc = [] \<and> capacity lc = bufCap \<and>
    onItemEvicted lc = cb \<and> evicted lc = []"
proof -
  assume n: "New bufCap cb = Inr lc"
  then have lc: "lc = \<lparr>capacity = bufCap, links = list_New, cache = (\<lambda>_. None),
                onItemEvicted = cb, evicted = []\<rparr>"
    by (auto simp: New_def split: if_splits)
  then have "rep lc []" by (simp add: rep_def dll_list_New)
  from rep_wf [OF this] rep_entries_the [OF this] lc show ?thesis by simp
qed

lemma wf_Back_None: "well_formed lc \<Longrightarrow> Back (links lc) = None \<longleftrightarrow> entries lc = []"
proof -
  assume "well_formed lc"
  then obtain xs where r: "rep lc xs" by (auto simp: well_formed_def)
  from rep_length [OF r] have "entries lc = [] \<longleftrightarrow> xs = []" by auto
  with Back_rep [OF r] show ?thesis by simp
qed

lemma AdjustCapacity_loop_wf:
  assumes "well_formed lc"
  shows "\<exists>lc'. AdjustCapacity_loop n lc = Some lc' \<and> well_formed lc' \<and>
           entries lc' = take (length (entries lc) - n) (entries lc) \<and>
           evicted lc' = evicted lc @ (if onItemEvicted lc then rev (drop (length (entries lc) - n) (entries lc)) else []) \<and>
           capacity lc' = capacity lc \<and> onItemEvicted lc' = onItemEvicted lc"
  using assms
proof (induction n arbitrary: lc)
  case 0
  then show ?case by simp
next
  case (Suc n)
  show ?case
  proof (cases "entries lc = []")
    case True
    with Suc.prems have "Back (links lc) = None" by (simp add: wf_Back_None)
    moreover from Suc.IH [OF Suc.prems] True obtain lc' where "AdjustCapacity_loop n lc = Some lc'"
      "well_formed lc'" "entries lc' = []" "evicted lc' = evicted lc" "capacity lc' = capacity lc"
      "onItemEvicted lc' = onItemEvicted lc"
      by auto
    ultimately show ?thesis using True by simp
  next
    case False
    define bs where "bs = butlast (entries lc)"
    define b where "b = last (entries lc)"
    from False have es: "entries lc = bs @ [b]" by (simp add: bs_def b_def)
    from evict_back [OF Suc.prems False] obtain e lc1 where lc1: "Back (links lc) = Some e"
      "(purgeLRUItem e lc \<bind> tryEvict e) = Some lc1" "well_formed lc1" "entries lc1 = bs"
      "capacity lc1 = capacity lc" "onItemEvicted lc1 = onItemEvicted lc"
      "evicted lc1 = evicted lc @ (if onItemEvicted lc then [b] else [])"
      unfolding bs_def b_def by blast
    from Suc.IH [OF lc1(3)] obtain lc' where lc': "AdjustCapacity_loop n lc1 = Some lc'" "well_formed lc'"
      "entries lc' = take (length bs - n) bs"
      "evicted lc' = evicted lc1 @ (if onItemEvicted lc1 then rev (drop (length bs - n) bs) else [])"
      "capacity lc' = capacity lc1" "onItemEvicted lc' = onItemEvicted lc1"
      unfolding lc1(4) by blast
    from lc1(2) obtain lc0 where "purgeLRUItem e lc = Some lc0" "tryEvict e lc0 = Some lc1"
      by (auto simp: bind_eq_Some_conv)
    with lc1(1) lc'(1) have "AdjustCapacity_loop (Suc n) lc = Some lc'" by simp
    with lc' lc1 show ?thesis by (simp add: es)
  qed
qed

lemma Put_invariant:
  assumes "well_formed lc" "Size lc \<le> capacity lc"
  shows "\<exists>b lc'. Put k v lc = Some (b, lc') \<and> well_formed lc' \<and> Size lc' \<le> capacity lc' \<and>
           capacity lc' = capacity lc \<and> onItemEvicted lc' = onItemEvicted lc"
proof (cases "fst (Has k lc)")
  case True
  from Put_hit [OF assms(1) True, of v] assms(2) show ?thesis by auto
next
  case False
  from Put_miss [OF assms(1) False, of v] obtain lc' where lc': 
    "Put k v lc = Some (Size lc + 1 > capacity lc, lc')" "well_formed lc'"
    "entries lc' = (if Size lc + 1 > capacity lc then butlast (\<lparr>key = k, val = v\<rparr> # entries lc)
                          else \<lparr>key = k, val = v\<rparr> # entries lc)"
    "capacity lc' = capacity lc" "onItemEvicted lc' = onItemEvicted lc"
    by blast
  from lc'(3) assms(2) have "Size lc' \<le> capacity lc'"
    by (simp add: wf_Size [OF lc'(2)] wf_Size [OF assms(1)] lc'(4) split: if_splits)
  with lc' show ?thesis by blast
qed

lemma Puts_invariant:
  assumes "well_formed lc" "Size lc \<le> capacity lc"
  shows "\<exists>lc'. Puts kvs lc = Some lc' \<and> well_formed lc' \<and> Size lc' \<le> capacity lc' \<and>
           capacity lc' = capacity lc \<and> onItemEvicted lc' = onItemEvicted lc"
  using assms
proof (induction kvs arbitrary: lc)
  case Nil
  then show ?case by simp
next
  case (Cons kv kvs)
  obtain k v where kv: "kv = (k, v)" by (cases kv)
  from Put_invariant [OF Cons.prems, of k v] obtain b lc1 where lc1: "Put k v lc = Some (b, lc1)"
    "well_formed lc1" "Size lc1 \<le> capacity lc1" "capacity lc1 = capacity lc"
    "onItemEvicted lc1 = onItemEvicted lc"
    by blast
  from Cons.IH [OF lc1(2,3)] lc1 show ?case by (simp add: kv)
qed

lemma Put_at_capacity:
  assumes "well_formed lc" "\<not> fst (Has k lc)" "Size lc = capacity lc" "0 < capacity lc"
  shows "\<exists>lc'. Put k v lc = Some (True, lc') \<and> well_formed lc' \<and>
           entries lc' = \<lparr>key = k, val = v\<rparr> # butlast (entries lc) \<and>
           evicted lc' = evicted lc @ (if onItemEvicted lc then [last (entries lc)] else []) \<and>
           Size lc' = capacity lc' \<and> capacity lc' = capacity lc"
proof -
  from assms(3,4) have ne: "entries lc \<noteq> []" by (auto simp: wf_Size [OF assms(1)])
  from Put_miss [OF assms(1,2), of v] assms(3) obtain lc' where lc':
    "Put k v lc = Some (True, lc')" "well_formed lc'"
    "entries lc' = butlast (\<lparr>key = k, val = v\<rparr> # entries lc)"
    "capacity lc' = capacity lc"
    "evicted lc' = evicted lc @ (if onItemEvicted lc then [last (\<lparr>key = k, val = v\<rparr> # entries lc)] else [])"
    by auto
  from lc'(3) ne assms(3) have "Size lc' = capacity lc'"
    by (simp add: wf_Size [OF lc'(2)] wf_Size [OF assms(1)] lc'(4))
  with lc' ne show ?thesis by simp
qed

lemma full_cache_wf: "\<exists>lc. full_cache = Some lc \<and> well_formed lc \<and> onItemEvicted lc"
proof -
  obtain lc0 :: "(int, int) LRUCache" where n: "New 2 True = Inr lc0"
    by (simp add: New_def)
  from wf_New [OF n] have "well_formed lc0" "Size lc0 \<le> capacity lc0" "onItemEvicted lc0"
    by (simp_all add: wf_Size)
  from Puts_invariant [OF this(1,2), of "[(Iface 1, Iface 1), (Iface 2, Iface 2)]"] this(3) n
  show ?thesis by (auto simp: full_cache_def)
qed







lemma int_wrap_id: "- (2 ^ 63) \<le> x \<Longrightarrow> x < 2 ^ 63 \<Longrightarrow> int_wrap x = x"
  by (simp add: int_wrap_def)

lemma AdjustCapacity_wf:
  assumes "well_formed lc" "- (2 ^ 63) \<le> Size lc - newCap" "Size lc - newCap < 2 ^ 63"
  shows "\<exists>lc'. AdjustCapacity newCap lc = Some (max (Size lc - newCap) 0, lc') \<and> well_formed lc' \<and>
           entries lc' = take (length (entries lc) - nat (Size lc - newCap)) (entries lc) \<and>
           evicted lc' = evicted lc @
             (if onItemEvicted lc
              then rev (drop (length (entries lc) - nat (Size lc - newCap)) (entries lc)) else []) \<and>
           capacity lc' = newCap \<and> onItemEvicted lc' = onItemEvicted lc"
proof -
  let ?d = "max (Size lc - newCap) 0"
  from AdjustCapacity_loop_wf [OF assms(1), of "nat ?d"] obtain lc1 where lc1:
    "AdjustCapacity_loop (nat ?d) lc = Some lc1" "well_formed lc1"
    "entries lc1 = take (length (entries lc) - nat ?d) (entries lc)"
    "evicted lc1 = evicted lc @ (if onItemEvicted lc then rev (drop (length (entries lc) - nat ?d) (entries lc)) else [])"
    "capacity lc1 = capacity lc" "onItemEvicted lc1 = onItemEvicted lc"
    by blast
  from lc1(2) have "rep (lc1\<lparr>capacity := newCap\<rparr>) (elems (links lc1))"
    by (intro rep_frame) (simp add: well_formed_def)
  then have w: "well_formed (lc1\<lparr>capacity := newCap\<rparr>)" by (rule rep_wf)
  have e: "entries (lc1\<lparr>capacity := newCap\<rparr>) = entries lc1" by (simp add: entries_def)
  have n: "nat ?d = nat (Size lc - newCap)" by simp
  have d: "(if int_wrap (Len (links lc) - newCap) < 0 then 0 else int_wrap (Len (links lc) - newCap)) = ?d"
    unfolding int_wrap_id [OF assms(2,3), unfolded Size_def] by (simp add: Size_def max_def)
  have "AdjustCapacity newCap lc = Some (?d, lc1\<lparr>capacity := newCap\<rparr>)"
    unfolding AdjustCapacity_def Let_def d using lc1(1) by simp
  with w e lc1 show ?thesis unfolding n by simp
qed

lemma New_ready:
  assumes "New bufCap cb = Inr lc"
  shows "well_formed lc \<and> entries lc = [] \<and> Size lc = 0 \<and> Keys lc = Some ([], lc) \<and>
         LeastRecentlyUsed lc = Some (nil, nil) \<and> (\<forall>k. \<not> fst (Has k lc)) \<and>
         (\<forall>k v. \<exists>lc'. Put k v lc = Some (False, lc') \<and> well_formed lc' \<and>
                 entries lc' = [\<lparr>key = k, val = v\<rparr>] \<and> Size lc' = 1 \<and>
                 Peek k lc' = Some (v, lc') \<and> evicted lc' = [])"
proof -
  from assms have pos: "0 < bufCap" by (auto simp: New_def split: if_splits)
  from wf_New [OF assms] have w: "well_formed lc" and e: "entries lc = []" "capacity lc = bufCap"
    "evicted lc = []"
    by simp_all
  have s: "Size lc = 0" by (simp add: wf_Size [OF w] e)
  have h: "\<not> fst (Has k lc)" for k by (simp add: wf_Has [OF w] e)
  have "\<exists>lc'. Put k v lc = Some (False, lc') \<and> well_formed lc' \<and>
                 entries lc' = [\<lparr>key = k, val = v\<rparr>] \<and> Size lc' = 1 \<and>
                 Peek k lc' = Some (v, lc') \<and> evicted lc' = []" for k v
  proof -
    from Put_miss [OF w h, of k v] pos s e obtain lc' where lc': "Put k v lc = Some (False, lc')"
      "well_formed lc'" "entries lc' = [\<lparr>key = k, val = v\<rparr>]" "evicted lc' = []"
      by auto
    from wf_Peek [OF lc'(2), of k] lc'(3) have "Peek k lc' = Some (v, lc')" by simp
    with lc' show ?thesis by (simp add: wf_Size [OF lc'(2)])
  qed
  with w e s h wf_Keys [OF w] wf_LeastRecentlyUsed [OF w] show ?thesis by simp
qed


subsection \<open>Drop, and the invariant along every run\<close>

text \<open>
  With a callback, \<open>Drop\<close> empties list and map and calls the callback once on each
  pair. Without one it only resets the list. Every reachable state is well formed.
\<close>

lemma evict_key:
  assumes "well_formed lc" "cache lc k = Some e"
  shows "\<exists>lc' p. (purgeLRUItem e lc \<bind> tryEvict e) = Some lc' \<and> well_formed lc' \<and>
           find (\<lambda>q. key q = k) (entries lc) = Some p \<and>
           entries lc' = filter (\<lambda>q. key q \<noteq> k) (entries lc) \<and>
           evicted lc' = evicted lc @ (if onItemEvicted lc then [p] else []) \<and>
           capacity lc' = capacity lc \<and> onItemEvicted lc' = onItemEvicted lc"
proof -
  from assms(1) obtain xs where r: "rep lc xs" by (auto simp: well_formed_def)
  from rep_cache [OF r assms(2)] obtain w where e: "e \<in> set xs" "Value (links lc) e = Some \<lparr>key = k, val = w\<rparr>"
    by blast
  let ?p = "\<lparr>key = k, val = w\<rparr>"
  from evict_rep [OF r e] obtain lc' where lc': "(purgeLRUItem e lc \<bind> tryEvict e) = Some lc'"
    "rep lc' (remove1 e xs)" "Value (links lc') = Value (links lc)" "capacity lc' = capacity lc"
    "onItemEvicted lc' = onItemEvicted lc"
    "evicted lc' = evicted lc @ (if onItemEvicted lc then [?p] else [])"
    by blast
  have "map (\<lambda>a. the (Value (links lc') a)) (remove1 e xs) = filter (\<lambda>q. key q \<noteq> key ?p) (entries lc)"
    by (rule map_Value_remove1 [OF r e]) (simp add: lc'(3))
  then have en: "entries lc' = filter (\<lambda>q. key q \<noteq> k) (entries lc)"
    by (simp add: rep_entries_the [OF lc'(2)])
  from rep_entry_at [OF r e(1)] e(2) have "?p \<in> set (entries lc)" by auto
  from find_distinct_keys [OF wf_distinct_keys [OF assms(1)] this]
  have "find (\<lambda>q. key q = k) (entries lc) = Some ?p" by simp
  with lc' en rep_wf [OF lc'(2)] show ?thesis by blast
qed

lemma map_filter_cong_set:
  "\<forall>x \<in> set xs. f x = g x \<Longrightarrow> List.map_filter f xs = List.map_filter g xs"
  by (induction xs) (auto simp: List.map_filter_simps split: option.splits)

lemma find_filter_other:
  "k' \<noteq> k \<Longrightarrow> find (\<lambda>q. key q = k') (filter (\<lambda>q. key q \<noteq> k) ps) = find (\<lambda>q. key q = k') ps"
  by (induction ps) auto

lemma Drop_loop_wf:
  assumes "well_formed lc" "onItemEvicted lc" "distinct ks"
  shows "\<exists>lc'. Drop_loop ks lc = Some lc' \<and> well_formed lc' \<and>
           entries lc' = filter (\<lambda>q. key q \<notin> set ks) (entries lc) \<and>
           evicted lc' = evicted lc @ List.map_filter (\<lambda>k. find (\<lambda>q. key q = k) (entries lc)) ks \<and>
           capacity lc' = capacity lc \<and> onItemEvicted lc'"
  using assms
proof (induction ks arbitrary: lc)
  case Nil
  then show ?case by (simp add: List.map_filter_simps)
next
  case (Cons k ks)
  from Cons.prems have d: "distinct ks" "k \<notin> set ks" by simp_all
  show ?case
  proof (cases "cache lc k")
    case None
    then have "\<not> fst (Has k lc)" by (simp add: Has_def)
    then have nk: "k \<notin> key ` set (entries lc)" by (simp add: wf_Has [OF Cons.prems(1)])
    then have "find (\<lambda>q. key q = k) (entries lc) = None" by (auto simp: find_None_iff)
    moreover from nk have "filter (\<lambda>q. key q \<notin> set (k # ks)) (entries lc) = filter (\<lambda>q. key q \<notin> set ks) (entries lc)"
      by (intro filter_cong) auto
    ultimately show ?thesis using Cons.IH [OF Cons.prems(1,2) d(1)] None
      by (simp add: List.map_filter_simps)
  next
    case (Some e)
    from evict_key [OF Cons.prems(1) Some] Cons.prems(2) obtain lc1 p where lc1:
      "(purgeLRUItem e lc \<bind> tryEvict e) = Some lc1" "well_formed lc1"
      "find (\<lambda>q. key q = k) (entries lc) = Some p"
      "entries lc1 = filter (\<lambda>q. key q \<noteq> k) (entries lc)"
      "evicted lc1 = evicted lc @ [p]" "capacity lc1 = capacity lc" "onItemEvicted lc1"
      by auto
    from Cons.IH [OF lc1(2,7) d(1)] obtain lc' where lc': "Drop_loop ks lc1 = Some lc'" "well_formed lc'"
      "entries lc' = filter (\<lambda>q. key q \<notin> set ks) (entries lc1)"
      "evicted lc' = evicted lc1 @ List.map_filter (\<lambda>k. find (\<lambda>q. key q = k) (entries lc1)) ks"
      "capacity lc' = capacity lc1" "onItemEvicted lc'"
      by blast
    have "List.map_filter (\<lambda>k'. find (\<lambda>q. key q = k') (entries lc1)) ks =
          List.map_filter (\<lambda>k'. find (\<lambda>q. key q = k') (entries lc)) ks"
    proof (intro map_filter_cong_set ballI)
      fix x assume "x \<in> set ks"
      with d(2) have "x \<noteq> k" by auto
      then show "find (\<lambda>q. key q = x) (entries lc1) = find (\<lambda>q. key q = x) (entries lc)"
        by (simp add: lc1(4) find_filter_other)
    qed
    moreover have "filter (\<lambda>q. key q \<notin> set ks) (entries lc1) = filter (\<lambda>q. key q \<notin> set (k # ks)) (entries lc)"
      by (auto simp: lc1(4) intro: filter_cong)
    moreover from lc1(1) obtain lc0 where "purgeLRUItem e lc = Some lc0" "tryEvict e lc0 = Some lc1"
      by (auto simp: bind_eq_Some_conv)
    with Some Cons.prems(2) lc'(1) have "Drop_loop (k # ks) lc = Some lc'" by simp
    ultimately show ?thesis using lc' lc1 by (simp add: List.map_filter_simps)
  qed
qed

lemma filter_key_single:
  "distinct (map key ps) \<Longrightarrow> p \<in> set ps \<Longrightarrow> filter (\<lambda>q. key q = key p) ps = [p]"
proof (induction ps)
  case Nil
  then show ?case by simp
next
  case (Cons a ps)
  from Cons.prems(1) have na: "key a \<notin> key ` set ps" and d: "distinct (map key ps)"
    by simp_all
  show ?case
  proof (cases "a = p")
    case True
    have "filter (\<lambda>q. key q = key p) ps = []"
      unfolding filter_empty_conv using na True by (metis imageI)
    with True show ?thesis by simp
  next
    case False
    with Cons.prems(2) have pp: "p \<in> set ps" by simp
    then have "key a \<noteq> key p" using na by (metis imageI)
    with Cons.IH [OF d pp] show ?thesis by simp
  qed
qed

lemma mset_split_key:
  "mset ps = mset (filter (\<lambda>q. key q = k) ps) + mset (filter (\<lambda>q. key q \<noteq> k) ps)"
  by (induction ps) simp_all

lemma mset_found:
  assumes "distinct (map key ps)" "distinct ks" "key ` set ps \<subseteq> set ks"
  shows "mset (List.map_filter (\<lambda>k. find (\<lambda>q. key q = k) ps) ks) = mset ps"
  using assms
proof (induction ks arbitrary: ps)
  case Nil
  then have "ps = []" by simp
  then show ?case by (simp add: List.map_filter_simps)
next
  case (Cons k ks)
  define ps' where "ps' = filter (\<lambda>q. key q \<noteq> k) ps"
  from Cons.prems(2) have d: "distinct ks" and nk: "k \<notin> set ks" by simp_all
  have eq: "List.map_filter (\<lambda>k'. find (\<lambda>q. key q = k') ps') ks =
          List.map_filter (\<lambda>k'. find (\<lambda>q. key q = k') ps) ks"
  proof (intro map_filter_cong_set ballI)
    fix x assume "x \<in> set ks"
    with nk have "x \<noteq> k" by auto
    then show "find (\<lambda>q. key q = x) ps' = find (\<lambda>q. key q = x) ps"
      unfolding ps'_def by (rule find_filter_other)
  qed
  have d': "distinct (map key ps')"
    unfolding ps'_def using Cons.prems(1) by (rule distinct_map_filter)
  have sub': "key ` set ps' \<subseteq> set ks"
  proof
    fix x assume "x \<in> key ` set ps'"
    then obtain q where q: "q \<in> set ps" "key q \<noteq> k" "x = key q"
      unfolding ps'_def by auto
    with Cons.prems(3) have "key q \<in> set (k # ks)" by blast
    with q show "x \<in> set ks" by simp
  qed
  from Cons.IH [OF d' d sub'] have ih: "mset (List.map_filter (\<lambda>k. find (\<lambda>q. key q = k) ps) ks) = mset ps'"
    by (simp only: eq)
  show ?case
  proof (cases "find (\<lambda>q. key q = k) ps")
    case None
    then have "\<forall>q \<in> set ps. key q \<noteq> k" by (simp add: find_None_iff)
    then have "ps' = ps" unfolding ps'_def by (simp add: filter_id_conv)
    with None ih show ?thesis by (simp add: List.map_filter_simps)
  next
    case (Some p)
    then have p: "p \<in> set ps" "key p = k"
      by (auto simp: find_Some_iff)
    from filter_key_single [OF Cons.prems(1) p(1)] p(2)
    have one: "filter (\<lambda>q. key q = k) ps = [p]" by simp
    have "mset ps = {#p#} + mset ps'"
      unfolding ps'_def by (subst mset_split_key [of ps k]) (simp only: one mset.simps)
    with Some ih show ?thesis by (simp add: List.map_filter_simps)
  qed
qed

lemma Drop_with_callback:
  assumes "well_formed lc" "onItemEvicted lc" "distinct ks" "set ks = {k. cache lc k \<noteq> None}"
  shows "\<exists>lc'. Drop ks lc = Some lc' \<and> well_formed lc' \<and> entries lc' = [] \<and> Size lc' = 0 \<and>
           Keys lc' = Some ([], lc') \<and> (\<forall>k. \<not> fst (Has k lc')) \<and>
           (\<exists>calls. evicted lc' = evicted lc @ calls \<and> mset calls = mset (entries lc)) \<and>
           capacity lc' = capacity lc \<and> onItemEvicted lc'"
proof -
  from Drop_loop_wf [OF assms(1-3)] obtain lc1 where lc1: "Drop_loop ks lc = Some lc1" "well_formed lc1"
    "entries lc1 = filter (\<lambda>q. key q \<notin> set ks) (entries lc)"
    "evicted lc1 = evicted lc @ List.map_filter (\<lambda>k. find (\<lambda>q. key q = k) (entries lc)) ks"
    "capacity lc1 = capacity lc" "onItemEvicted lc1"
    by blast
  from assms(4) have sub: "key ` set (entries lc) \<subseteq> set ks"
    using wf_Has [OF assms(1)] by (auto simp: Has_def)
  then have e1: "entries lc1 = []"
    by (auto simp: lc1(3) filter_empty_conv)
  from lc1(2) obtain xs where r: "rep lc1 xs" by (auto simp: well_formed_def)
  with e1 have "xs = []" using rep_length [OF r] by simp
  with r have r0: "rep lc1 []" by simp
  let ?lc' = "lc1\<lparr>links := Init (links lc1)\<rparr>"
  from r0 have "rep ?lc' []"
    unfolding rep_def by (auto simp: dll_def Init_def)
  then have w: "well_formed ?lc'" and e: "entries ?lc' = []"
    by (simp_all add: rep_wf rep_entries_the)
  have "Drop ks lc = Some ?lc'" using lc1(1) by (simp add: Drop_def)
  moreover from mset_found [OF wf_distinct_keys [OF assms(1)] assms(3) sub] lc1(4)
  have "\<exists>calls. evicted ?lc' = evicted lc @ calls \<and> mset calls = mset (entries lc)"
    by simp
  moreover have "\<forall>k. \<not> fst (Has k ?lc')" using e by (simp add: wf_Has [OF w])
  ultimately show ?thesis
    using w e lc1(5,6) wf_Keys [OF w] wf_Size [OF w] by simp
qed

lemma Drop_without_callback:
  "\<not> onItemEvicted lc \<Longrightarrow> Drop ks lc = Some (lc\<lparr>links := Init (links lc)\<rparr>)"
proof -
  assume "\<not> onItemEvicted lc"
  then have "Drop_loop ks lc = Some lc"
    by (induction ks) (simp_all split: option.splits)
  then show ?thesis by (simp add: Drop_def)
qed

lemma reachable_well_formed: "reachable lc \<Longrightarrow> well_formed lc"
proof (induction rule: reachable.induct)
  case (r_New bufCap cb lc)
  then show ?case by (simp add: wf_New)
next
  case (r_Get lc k r lc')
  show ?case
  proof (cases "fst (Has k lc)")
    case True
    then obtain p where "p \<in> set (entries lc)" "key p = k"
      by (auto simp: wf_Has [OF r_Get.IH])
    with Get_hit [OF r_Get.IH this(1)] r_Get.hyps(2) show ?thesis by auto
  next
    case False
    with Get_miss [OF False] r_Get show ?thesis by simp
  qed
next
  case (r_Put lc k v b lc')
  show ?case
  proof (cases "fst (Has k lc)")
    case True
    with Put_hit [OF r_Put.IH True, of v] r_Put.hyps(2) show ?thesis by auto
  next
    case False
    with Put_miss [OF r_Put.IH False, of v] r_Put.hyps(2) show ?thesis by auto
  qed
next
  case (r_Del lc k b lc')
  show ?case
  proof (cases "fst (Has k lc)")
    case True
    with Del_hit [OF r_Del.IH True] r_Del.hyps(2) show ?thesis by auto
  next
    case False
    with Del_miss [OF False] r_Del show ?thesis by simp
  qed
next
  case (r_Keys lc ks lc')
  then show ?case by (simp add: wf_Keys)
next
  case (r_Peek lc k v lc')
  then show ?case by (simp add: wf_Peek)
next
  case (r_Has lc k b lc')
  then show ?case by (simp add: Has_def)
next
  case (r_AdjustCapacity lc n d lc')
  let ?d = "if int_wrap (Len (links lc) - n) < 0 then 0 else int_wrap (Len (links lc) - n)"
  from AdjustCapacity_loop_wf [OF r_AdjustCapacity.IH, of "nat ?d"] obtain lc1 where lc1:
    "AdjustCapacity_loop (nat ?d) lc = Some lc1" "well_formed lc1"
    by blast
  from lc1(2) have "rep (lc1\<lparr>capacity := n\<rparr>) (elems (links lc1))"
    by (intro rep_frame) (simp add: well_formed_def)
  then have "well_formed (lc1\<lparr>capacity := n\<rparr>)" by (rule rep_wf)
  with lc1(1) r_AdjustCapacity.hyps(2) show ?case
    by (simp add: AdjustCapacity_def Let_def)
next
  case (r_Drop lc ks lc')
  with Drop_with_callback [OF r_Drop.IH r_Drop.hyps(2,3,4)] show ?case by auto
qed


section \<open>Construction\<close>

text \<open>
  C9. \<open>New\<close> fails exactly when the capacity is not positive, with the error of the source
  and no cache. For a positive capacity it returns a cache of size 0 and of the given
  capacity that is ready: it is well formed (the list is an initialised, empty ring and
  the map is empty), \<open>Keys\<close> returns the empty list, \<open>LeastRecentlyUsed\<close> returns
  (nil, nil), and a first \<open>Put\<close> of any pair returns false and leaves exactly that pair,
  which \<open>Peek\<close> then returns.
\<close>

theorem New_valid_iff_positive:
  "((\<exists>e. (New bufCap cb :: error + ('k, 'v) LRUCache) = Inl e) \<longleftrightarrow> bufCap \<le> 0) \<and>
   (bufCap \<le> 0 \<longrightarrow>
      (New bufCap cb :: error + ('k, 'v) LRUCache) =
        Inl (Error ''an LRU Cache must be initialized with a whole number greater than zero'')) \<and>
   (0 < bufCap \<longrightarrow>
      (\<exists>lc. (New bufCap cb :: error + ('k, 'v) LRUCache) = Inr lc \<and>
            Size lc = 0 \<and> Capacity lc = bufCap \<and> onItemEvicted lc = cb \<and>
            evicted lc = [] \<and> (\<forall>k. \<not> fst (Has k lc)) \<and>
            well_formed lc \<and> entries lc = [] \<and> Keys lc = Some ([], lc) \<and>
            LeastRecentlyUsed lc = Some (nil, nil) \<and>
            (\<forall>k v. \<exists>lc'. Put k v lc = Some (False, lc') \<and> well_formed lc' \<and>
                    entries lc' = [\<lparr>key = k, val = v\<rparr>] \<and> Size lc' = 1 \<and>
                    Peek k lc' = Some (v, lc') \<and> evicted lc' = [])))"
proof (intro conjI impI)
  show "(\<exists>e. (New bufCap cb :: error + ('k, 'v) LRUCache) = Inl e) \<longleftrightarrow> bufCap \<le> 0"
    by (simp add: New_def)
next
  assume "bufCap \<le> 0"
  then show "(New bufCap cb :: error + ('k, 'v) LRUCache) =
        Inl (Error ''an LRU Cache must be initialized with a whole number greater than zero'')"
    by (simp add: New_def)
next
  assume pos: "0 < bufCap"
  then obtain lc :: "('k, 'v) LRUCache" where n: "New bufCap cb = Inr lc"
    by (simp add: New_def)
  from wf_New [OF n] have "Capacity lc = bufCap" "onItemEvicted lc = cb" "evicted lc = []"
    by (simp_all add: Capacity_def)
  with n New_ready [OF n]
  show "\<exists>lc. (New bufCap cb :: error + ('k, 'v) LRUCache) = Inr lc \<and>
            Size lc = 0 \<and> Capacity lc = bufCap \<and> onItemEvicted lc = cb \<and>
            evicted lc = [] \<and> (\<forall>k. \<not> fst (Has k lc)) \<and>
            well_formed lc \<and> entries lc = [] \<and> Keys lc = Some ([], lc) \<and>
            LeastRecentlyUsed lc = Some (nil, nil) \<and>
            (\<forall>k v. \<exists>lc'. Put k v lc = Some (False, lc') \<and> well_formed lc' \<and>
                    entries lc' = [\<lparr>key = k, val = v\<rparr>] \<and> Size lc' = 1 \<and>
                    Peek k lc' = Some (v, lc') \<and> evicted lc' = [])"
    by blast
qed

theorem New_valid_iff_positive_witness:
  "(\<exists>lc. (New 3 True :: error + (int, int) LRUCache) = Inr lc \<and>
         Size lc = 0 \<and> Capacity lc = 3 \<and> onItemEvicted lc = True \<and>
         evicted lc = [] \<and> (\<forall>k. \<not> fst (Has k lc)) \<and>
         well_formed lc \<and> entries lc = [] \<and> Keys lc = Some ([], lc) \<and>
         LeastRecentlyUsed lc = Some (nil, nil) \<and>
         (\<exists>lc'. Put (Iface 7) (Iface 8) lc = Some (False, lc') \<and> well_formed lc' \<and>
                entries lc' = [\<lparr>key = Iface 7, val = Iface 8\<rparr>] \<and> Size lc' = 1 \<and>
                Peek (Iface 7) lc' = Some (Iface 8, lc') \<and> evicted lc' = [])) \<and>
   (New 0 True :: error + (int, int) LRUCache) =
      Inl (Error ''an LRU Cache must be initialized with a whole number greater than zero'') \<and>
   (\<exists>e. (New (- 5) False :: error + (int, int) LRUCache) = Inl e)"
proof -
  from New_valid_iff_positive [of 3 True, where ?'k = int and ?'v = int]
  obtain lc :: "(int, int) LRUCache" where lc: "New 3 True = Inr lc"
         "Size lc = 0" "Capacity lc = 3" "onItemEvicted lc = True"
         "evicted lc = []" "\<forall>k. \<not> fst (Has k lc)"
         "well_formed lc" "entries lc = []" "Keys lc = Some ([], lc)"
         "LeastRecentlyUsed lc = Some (nil, nil)"
         and p: "\<forall>k v. \<exists>lc'. Put k v lc = Some (False, lc') \<and> well_formed lc' \<and>
                    entries lc' = [\<lparr>key = k, val = v\<rparr>] \<and> Size lc' = 1 \<and>
                    Peek k lc' = Some (v, lc') \<and> evicted lc' = []"
    by auto
  from p have "\<exists>lc'. Put (Iface 7) (Iface 8) lc = Some (False, lc') \<and> well_formed lc' \<and>
                entries lc' = [\<lparr>key = Iface 7, val = Iface 8\<rparr>] \<and> Size lc' = 1 \<and>
                Peek (Iface 7) lc' = Some (Iface 8, lc') \<and> evicted lc' = []"
    by blast
  moreover from New_valid_iff_positive [of 0 True, where ?'k = int and ?'v = int]
  have "(New 0 True :: error + (int, int) LRUCache) =
      Inl (Error ''an LRU Cache must be initialized with a whole number greater than zero'')"
    by simp
  moreover from New_valid_iff_positive [of "- 5" False, where ?'k = int and ?'v = int]
  have "\<exists>e. (New (- 5) False :: error + (int, int) LRUCache) = Inl e"
    by simp
  ultimately show ?thesis using lc by blast
qed


section \<open>Recency\<close>

text \<open>
  C2. On a cache of capacity 3 with a callback, the calls
  \<^verbatim>\<open>Put(1,1); Put(2,2); Get(1); Put(3,3); Get(1); Put(4,4); Get(1); Put(5,5)\<close> all return,
  the callback is called exactly twice (on the pairs of the keys 2 and 3, in this order),
  the size is 3, and \<open>LeastRecentlyUsed\<close> returns the pair of key 4 and value 4.
\<close>

theorem recency_run_evicts_two:
  "\<exists>lc. recency_run = Some lc \<and>
        length (evicted lc) = 2 \<and>
        evicted lc = [\<lparr>key = Iface 2, val = Iface 2\<rparr>, \<lparr>key = Iface 3, val = Iface 3\<rparr>] \<and>
        Size lc = 3 \<and>
        LeastRecentlyUsed lc = Some (Iface 4, Iface 4)"
proof -
  have size: "map_option Size recency_run = Some 3"
    by code_simp
  then obtain lc where run: "recency_run = Some lc"
    by (cases recency_run) simp_all
  have "map_option evicted recency_run =
          Some [\<lparr>key = Iface 2, val = Iface 2\<rparr>, \<lparr>key = Iface 3, val = Iface 3\<rparr>]"
    by code_simp
  moreover have "Option.bind recency_run LeastRecentlyUsed = Some (Iface 4, Iface 4)"
    by code_simp
  ultimately show ?thesis
    using size unfolding run by simp
qed


section \<open>The capacity bound\<close>

text \<open>
  C1. On a cache made by \<open>New\<close>, every sequence of \<open>Put\<close> calls returns and leaves
  \<open>Size \<le> Capacity\<close>; as every prefix of a sequence is a sequence, this holds after each
  call. In the cache it leaves, a \<open>Put\<close> of a new key at \<open>Size = Capacity\<close> returns
  true, puts the new pair at the head and removes exactly the tail pair, on which the
  callback (if there is one) is called, so the size is the capacity again.
\<close>

theorem Put_keeps_size_within_capacity:
  assumes "New bufCap cb = Inr lc0"
  shows "\<exists>lc. Puts kvs lc0 = Some lc \<and> Size lc \<le> Capacity lc \<and>
           (\<forall>k v. \<not> fst (Has k lc) \<and> Size lc = Capacity lc \<longrightarrow>
              (\<exists>lc'. Put k v lc = Some (True, lc') \<and>
                     entries lc' = \<lparr>key = k, val = v\<rparr> # butlast (entries lc) \<and>
                     evicted lc' = evicted lc @ (if cb then [last (entries lc)] else []) \<and>
                     Size lc' = Capacity lc'))"
proof -
  from assms have pos: "0 < bufCap" by (auto simp: New_def split: if_splits)
  from wf_New [OF assms] have w0: "well_formed lc0" "Size lc0 \<le> capacity lc0"
    and c0: "capacity lc0 = bufCap" "onItemEvicted lc0 = cb"
    using pos by (simp_all add: wf_Size)
  from Puts_invariant [OF w0, of kvs] obtain lc where lc: "Puts kvs lc0 = Some lc" "well_formed lc"
    "Size lc \<le> capacity lc" "capacity lc = capacity lc0" "onItemEvicted lc = onItemEvicted lc0"
    by blast
  have "\<exists>lc'. Put k v lc = Some (True, lc') \<and>
              entries lc' = \<lparr>key = k, val = v\<rparr> # butlast (entries lc) \<and>
              evicted lc' = evicted lc @ (if cb then [last (entries lc)] else []) \<and>
              Size lc' = Capacity lc'"
    if "\<not> fst (Has k lc)" "Size lc = Capacity lc" for k v
    using Put_at_capacity [OF lc(2) that(1), of v] that(2) lc(4,5) c0 pos
    by (auto simp: Capacity_def)
  with lc(1,3) show ?thesis by (auto simp: Capacity_def)
qed

theorem Put_keeps_size_within_capacity_witness:
  "\<exists>lc0 lc lc'. (New 2 True :: error + (int, int) LRUCache) = Inr lc0 \<and>
      Puts [(Iface 1, Iface 1), (Iface 2, Iface 2)] lc0 = Some lc \<and> Size lc \<le> Capacity lc \<and>
      \<not> fst (Has (Iface 3) lc) \<and> Size lc = Capacity lc \<and>
      Put (Iface 3) (Iface 3) lc = Some (True, lc') \<and>
      entries lc' = \<lparr>key = Iface 3, val = Iface 3\<rparr> # butlast (entries lc) \<and>
      evicted lc' = evicted lc @ [last (entries lc)] \<and> Size lc' = Capacity lc'"
proof -
  obtain lc0 :: "(int, int) LRUCache" where n: "New 2 True = Inr lc0"
    by (simp add: New_def)
  from Put_keeps_size_within_capacity [OF n, of "[(Iface 1, Iface 1), (Iface 2, Iface 2)]"]
  obtain lc where lc: "Puts [(Iface 1, Iface 1), (Iface 2, Iface 2)] lc0 = Some lc" "Size lc \<le> Capacity lc"
    and ev: "\<And>k v. \<not> fst (Has k lc) \<Longrightarrow> Size lc = Capacity lc \<Longrightarrow>
              (\<exists>lc'. Put k v lc = Some (True, lc') \<and>
                     entries lc' = \<lparr>key = k, val = v\<rparr> # butlast (entries lc) \<and>
                     evicted lc' = evicted lc @ (if True then [last (entries lc)] else []) \<and>
                     Size lc' = Capacity lc')"
    by blast
  from n lc(1) have fc: "full_cache = Some lc" by (simp add: full_cache_def)
  have "map_option (\<lambda>lc. fst (Has (Iface 3) lc)) full_cache = Some False"
    by code_simp
  then have h: "\<not> fst (Has (Iface 3) lc)" unfolding fc by simp
  have "map_option (\<lambda>lc. Size lc = Capacity lc) full_cache = Some True"
    by code_simp
  then have s: "Size lc = Capacity lc" unfolding fc by simp
  from ev [OF h s, of "Iface 3"] n lc h s show ?thesis by auto
qed


section \<open>Drop and Purge without a callback\<close>

text \<open>
  C3, at the failing input \<^verbatim>\<open>New(3, nil); Put(1,1); Drop()\<close>. The loop of \<open>Drop\<close>
  purges an entry only when a callback is registered, so with none the map keeps its
  entries and only the list is reset: the size is 0 and \<open>Keys\<close> is empty, yet
  \<open>Has 1\<close> is still true and \<open>Peek 1\<close> still returns 1.
\<close>

theorem Drop_without_callback_keeps_index:
  "map_option Size drop_run = Some 0 \<and>
   (drop_run \<bind> Keys \<bind> (\<lambda>r. Some (fst r))) = Some [] \<and>
   map_option (\<lambda>lc. fst (Has (Iface 1) lc)) drop_run = Some True \<and>
   (drop_run \<bind> Peek (Iface 1) \<bind> (\<lambda>r. Some (fst r))) = Some (Iface 1)"
  by (intro conjI; code_simp)


text \<open>
  C4, at the failing input \<^verbatim>\<open>New(2, nil); Put(1,1); Put(2,2); Purge(); Put(3,3)\<close>.
  After these calls the list holds the key 3 alone (\<open>Keys\<close> returns it, the size is
  1), while the map holds the keys 1, 2 and 3.
\<close>

theorem Purge_without_callback_breaks_invariant:
  "(purge_run \<bind> Keys \<bind> (\<lambda>r. Some (fst r))) = Some [Iface 3] \<and>
   map_option Size purge_run = Some 1 \<and>
   map_option (\<lambda>lc. map (\<lambda>k. fst (Has (Iface k) lc)) [1, 2, 3, 4]) purge_run =
     Some [True, True, True, False]"
  by (intro conjI; code_simp)


section \<open>Updating a key that is present\<close>





section \<open>AdjustCapacity\<close>

text \<open>
  C6, as amended. On a well-formed cache of size \<open>S\<close>, for every new capacity for which
  \<open>S - newCap\<close> does not overflow a 64-bit \<^verbatim>\<open>int\<close>, \<open>AdjustCapacity\<close> returns, removes
  exactly \<open>min S (max (S - newCap) 0)\<close> pairs, namely the least recently used ones,
  tail first, calling the callback (if there is one) on each in that order, and sets the
  capacity to \<open>newCap\<close>. When \<open>0 \<le> newCap\<close> the number it returns is the number of
  pairs removed, \<open>max (S - newCap) 0\<close>.
\<close>

theorem AdjustCapacity_evicts_from_tail:
  assumes "well_formed lc" "- (2 ^ 63) \<le> Size lc - newCap" "Size lc - newCap < 2 ^ 63"
  shows "\<exists>r lc'. AdjustCapacity newCap lc = Some (r, lc') \<and> well_formed lc' \<and>
           Size lc - Size lc' = min (Size lc) (max (Size lc - newCap) 0) \<and>
           entries lc' = take (nat (Size lc')) (entries lc) \<and>
           evicted lc' = evicted lc @
             (if onItemEvicted lc then rev (drop (nat (Size lc')) (entries lc)) else []) \<and>
           Capacity lc' = newCap \<and>
           (0 \<le> newCap \<longrightarrow> r = Size lc - Size lc' \<and> r = max (Size lc - newCap) 0)"
proof -
  from AdjustCapacity_wf [OF assms] obtain lc' where lc':
    "AdjustCapacity newCap lc = Some (max (Size lc - newCap) 0, lc')" "well_formed lc'"
    "entries lc' = take (length (entries lc) - nat (Size lc - newCap)) (entries lc)"
    "evicted lc' = evicted lc @
       (if onItemEvicted lc
        then rev (drop (length (entries lc) - nat (Size lc - newCap)) (entries lc)) else [])"
    "capacity lc' = newCap"
    by blast
  have s: "Size lc = int (length (entries lc))" by (rule wf_Size [OF assms(1)])
  have s': "Size lc' = int (length (entries lc) - nat (Size lc - newCap))"
    by (simp add: wf_Size [OF lc'(2)] lc'(3))
  then have n: "nat (Size lc') = length (entries lc) - nat (Size lc - newCap)" by simp
  have "Size lc - Size lc' = min (Size lc) (max (Size lc - newCap) 0)"
    unfolding s' s by auto
  moreover have "0 \<le> newCap \<longrightarrow> max (Size lc - newCap) 0 = Size lc - Size lc'"
    unfolding s' s by auto
  moreover from lc'(3) have "entries lc' = take (nat (Size lc')) (entries lc)"
    by (simp only: n)
  moreover from lc'(4) have "evicted lc' = evicted lc @
      (if onItemEvicted lc then rev (drop (nat (Size lc')) (entries lc)) else [])"
    by (simp only: n)
  ultimately show ?thesis using lc'(1,2,5) by (simp add: Capacity_def)
qed

theorem AdjustCapacity_evicts_from_tail_witness:
  "\<exists>lc r lc'. full_cache = Some lc \<and> well_formed lc \<and> Size lc = 2 \<and>
      AdjustCapacity 1 lc = Some (r, lc') \<and> well_formed lc' \<and>
      Size lc - Size lc' = min (Size lc) (max (Size lc - 1) 0) \<and>
      entries lc' = take (nat (Size lc')) (entries lc) \<and>
      evicted lc' = evicted lc @ rev (drop (nat (Size lc')) (entries lc)) \<and>
      Capacity lc' = 1 \<and> r = Size lc - Size lc' \<and> r = 1"
proof -
  from full_cache_wf obtain lc where lc: "full_cache = Some lc" "well_formed lc" "onItemEvicted lc"
    by blast
  have "map_option Size full_cache = Some 2"
    by code_simp
  then have s: "Size lc = 2" unfolding lc(1) by simp
  from AdjustCapacity_evicts_from_tail [OF lc(2), of 1] s lc(3)
  obtain r lc' where "AdjustCapacity 1 lc = Some (r, lc')" "well_formed lc'"
      "Size lc - Size lc' = min (Size lc) (max (Size lc - 1) 0)"
      "entries lc' = take (nat (Size lc')) (entries lc)"
      "evicted lc' = evicted lc @ rev (drop (nat (Size lc')) (entries lc))"
      "Capacity lc' = 1" "r = Size lc - Size lc'" "r = max (Size lc - 1) 0"
    by auto
  with lc s show ?thesis
    by - (rule exI [of _ lc], rule exI [of _ r], rule exI [of _ lc'], simp)
qed

text \<open>
  The claim as first stated fails for a negative capacity: on the cache of
  \<^verbatim>\<open>New(3, cb); Put(1,1)\<close>, of size 1, \<^verbatim>\<open>AdjustCapacity(-1)\<close> returns 2, which is
  \<open>max (S - newCap) 0\<close>, while one pair is removed and the callback is called once.
\<close>

theorem AdjustCapacity_negative_counterexample:
  "map_option Size one_entry = Some 1 \<and>
   map_option fst adjust_run = Some 2 \<and>
   map_option (\<lambda>r. length (evicted (snd r))) adjust_run = Some 1 \<and>
   map_option (\<lambda>r. Size (snd r)) adjust_run = Some 0"
  by (intro conjI; code_simp)


section \<open>Has and Peek\<close>




section \<open>Del\<close>





section \<open>Peek and LeastRecentlyUsed return nil in two cases\<close>




end
